theory Spec2Isabelle
  imports Main
begin

section \<open>The automation library as seen by the two scripts\<close>

text \<open>
  Both scripts (\<^verbatim>\<open>add_client.py\<close> and \<^verbatim>\<open>verify_multi_part_devolution.py\<close>) consist of
  one function \<^verbatim>\<open>run\<close> that issues calls to a browser-automation library. The library
  and the web application are not part of the repository, so they are a parameter of the
  model (a \<open>world\<close>): it decides, for every call, whether the call returns or raises and
  which page events (console messages, dialogs) happen while the call is in progress.

  Python strings are kept as their UTF-8 bytes, which is how the literals stand in the
  source files; only equality of strings matters below.
\<close>

subsection \<open>Locators\<close>

text \<open>
  \<^verbatim>\<open>page.locator(css)\<close>, \<^verbatim>\<open>x.get_by_label(text)\<close> and \<^verbatim>\<open>x.get_by_role(role, name=...)\<close>
  build a locator without touching the page; \<open>Within\<close> is a locator obtained from
  another locator (\<^verbatim>\<open>part1.get_by_label(...)\<close>).
\<close>

datatype selector =
    Css string
  | Label string
  | Role string string
  | Within selector selector

subsection \<open>Calls, handlers, events\<close>

text \<open>The two lambdas passed to \<^verbatim>\<open>page.on\<close> in \<^verbatim>\<open>add_client.py\<close>.\<close>

datatype handler =
    Print_Console   \<comment> \<open>\<^verbatim>\<open>lambda msg: print(f"CONSOLE: {msg.text}")\<close>\<close>
  | Accept_Dialog   \<comment> \<open>\<^verbatim>\<open>lambda dialog: dialog.accept()\<close>\<close>

datatype call =
    Launch bool                          \<comment> \<open>\<^verbatim>\<open>playwright.chromium.launch(headless=...)\<close>\<close>
  | New_Page                             \<comment> \<open>\<^verbatim>\<open>browser.new_page()\<close>\<close>
  | On string handler                    \<comment> \<open>\<^verbatim>\<open>page.on(event, handler)\<close>\<close>
  | Goto string                          \<comment> \<open>\<^verbatim>\<open>page.goto(url)\<close>\<close>
  | Expect_Visible selector              \<comment> \<open>\<^verbatim>\<open>expect(loc).to_be_visible()\<close>\<close>
  | Expect_Contain_Text selector string  \<comment> \<open>\<^verbatim>\<open>expect(loc).to_contain_text(text)\<close>\<close>
  | Fill selector string                 \<comment> \<open>\<^verbatim>\<open>loc.fill(value)\<close>\<close>
  | Select_Option selector string        \<comment> \<open>\<^verbatim>\<open>loc.select_option(value)\<close>\<close>
  | Click selector                       \<comment> \<open>\<^verbatim>\<open>loc.click()\<close>\<close>
  | Wait_For_Timeout nat                 \<comment> \<open>\<^verbatim>\<open>page.wait_for_timeout(ms)\<close>\<close>
  | Screenshot string                    \<comment> \<open>\<^verbatim>\<open>page.screenshot(path=...)\<close>\<close>
  | Close                                \<comment> \<open>\<^verbatim>\<open>browser.close()\<close>\<close>

datatype page_event =
    Console_Message string
  | Dialog string

datatype outcome = Returned | Raised

text \<open>What the outside does with one call.\<close>

datatype reaction = Reaction (raises: bool) (emits: "page_event list")

text \<open>
  The world sees the calls issued so far and the call being made. Quantifying over all
  worlds covers every behaviour of the library, the browser and the application.
\<close>

type_synonym world = "call list \<Rightarrow> call \<Rightarrow> reaction"

subsection \<open>State of one run\<close>

text \<open>
  The log holds, oldest first, everything a run did: each library call with its outcome,
  and what the registered handlers did for the events raised meanwhile. \<open>Not_Handled\<close>
  records a dialog for which the script had no listener registered.
\<close>

datatype entry =
    Did call outcome
  | Printed string
  | Accepted string
  | Not_Handled string
  | Handler_Failed

record state =
  listeners :: "(string \<times> handler) list"
  log :: "entry list"

definition initial :: state where
  "initial = \<lparr>listeners = [], log = []\<rparr>"

fun calls :: "entry list \<Rightarrow> call list" where
  "calls [] = []"
| "calls (Did c out # es) = c # calls es"
| "calls (e # es) = calls es"

fun event_name :: "page_event \<Rightarrow> string" where
  "event_name (Console_Message t) = ''console''"
| "event_name (Dialog m) = ''dialog''"

text \<open>
  One handler applied to one event. Each lambda of the source is registered under the
  event it is written for; applied to the other kind of event it would fail on the
  missing attribute.
\<close>

fun handle :: "handler \<Rightarrow> page_event \<Rightarrow> entry" where
  "handle Print_Console (Console_Message t) = Printed (''CONSOLE: '' @ t)"
| "handle Accept_Dialog (Dialog m) = Accepted m"
| "handle h e = Handler_Failed"

text \<open>
  An event goes to every listener registered under its name, in registration order.
  A dialog that finds no listener is not answered by the script.
\<close>

definition dispatch :: "(string \<times> handler) list \<Rightarrow> page_event \<Rightarrow> entry list" where
  "dispatch ls e =
     (let hs = map snd (filter (\<lambda>l. fst l = event_name e) ls)
      in if hs = []
         then (case e of Dialog m \<Rightarrow> [Not_Handled m] | Console_Message t \<Rightarrow> [])
         else map (\<lambda>h. handle h e) hs)"

text \<open>
  One library call: the world reacts, the events raised during the call are dispatched
  to the listeners registered before it, and \<^verbatim>\<open>page.on\<close> registers its listener when
  it returns.
\<close>

definition perform :: "world \<Rightarrow> call \<Rightarrow> state \<Rightarrow> outcome \<times> state" where
  "perform w c s =
     (let r = w (calls (log s)) c;
          out = (if raises r then Raised else Returned);
          ls = (case c of
                  On ev h \<Rightarrow> if raises r then listeners s else listeners s @ [(ev, h)]
                | _ \<Rightarrow> listeners s)
      in (out, \<lparr>listeners = ls,
                log = log s @ [Did c out] @ concat (map (dispatch (listeners s)) (emits r))\<rparr>))"

text \<open>Statements in sequence: the first call that raises ends the sequence.\<close>

fun seq :: "world \<Rightarrow> call list \<Rightarrow> state \<Rightarrow> outcome \<times> state" where
  "seq w [] s = (Returned, s)"
| "seq w (c # cs) s =
     (case perform w c s of
        (Raised, s') \<Rightarrow> (Raised, s')
      | (Returned, s') \<Rightarrow> seq w cs s')"

text \<open>
  \<^verbatim>\<open>try: body  finally: fin\<close>. The final block runs whatever the body did; the
  statement raises if either of them raised.
\<close>

definition try_finally ::
  "(state \<Rightarrow> outcome \<times> state) \<Rightarrow> (state \<Rightarrow> outcome \<times> state) \<Rightarrow> state \<Rightarrow> outcome \<times> state" where
  "try_finally body fin s =
     (case body s of
        (out, s') \<Rightarrow>
          (case fin s' of
             (Raised, s'') \<Rightarrow> (Raised, s'')
           | (Returned, s'') \<Rightarrow> (out, s'')))"

subsection \<open>String literals of the sources\<close>

text \<open>
  The three letters outside ASCII that the labels use, as UTF-8: c with cedilla
  (C3 A7), a with tilde (C3 A3) and o with acute accent (C3 B3); \<open>cao\<close> is the ending
  of \<^verbatim>\<open>Devolucao\<close>, \<^verbatim>\<open>Descricao\<close>, \<^verbatim>\<open>Requisicao\<close> and \<^verbatim>\<open>Acao\<close> with its
  cedilla and tilde. In \<open>part_row\<close>, byte 22 is the double quote of
  \<^verbatim>\<open>.part-row[data-part-index="0"]\<close>.
\<close>

definition c_cedilla :: string where "c_cedilla = [CHR 0xC3, CHR 0xA7]"
definition a_tilde :: string where "a_tilde = [CHR 0xC3, CHR 0xA3]"
definition o_acute :: string where "o_acute = [CHR 0xC3, CHR 0xB3]"

definition cao :: string where
  "cao = c_cedilla @ a_tilde @ ''o''"

definition pessoas_url :: string where
  "pessoas_url = ''http://localhost:5173/pages/cadastro-pessoas.html''"

definition cadastro_url :: string where
  "cadastro_url = ''http://localhost:5173/pages/cadastro.html''"

definition navbar :: selector where
  "navbar = Css ''#navbarNav''"

definition salvar :: selector where
  "salvar = Role ''button'' ''Salvar''"

definition adicionar_peca :: selector where
  "adicionar_peca = Role ''button'' (''Adicionar Pe'' @ c_cedilla @ ''a'')"

definition salvar_devolucao :: selector where
  "salvar_devolucao = Role ''button'' (''Salvar Devolu'' @ cao)"

definition part_row :: "string \<Rightarrow> selector" where
  "part_row i = Css (''.part-row[data-part-index='' @ [CHR 0x22] @ i @ [CHR 0x22] @ '']'')"

definition part1 :: selector where "part1 = part_row ''0''"
definition part2 :: selector where "part2 = part_row ''1''"

definition codigo_da_peca :: string where
  "codigo_da_peca = ''C'' @ o_acute @ ''digo da Pe'' @ c_cedilla @ ''a''"

definition descricao_da_peca :: string where
  "descricao_da_peca = ''Descri'' @ cao @ '' da Pe'' @ c_cedilla @ ''a''"

definition requisicao_de_venda :: string where
  "requisicao_de_venda = ''Requisi'' @ cao @ '' de Venda''"

definition acao_na_requisicao :: string where
  "acao_na_requisicao = ''A'' @ cao @ '' na Requisi'' @ cao"

definition data_da_devolucao :: string where
  "data_da_devolucao = ''Data da Devolu'' @ cao"

definition success_alert :: selector where
  "success_alert = Css ''.alert-success''"

definition success_text :: string where
  "success_text = ''Devolu'' @ cao @ '' registrada com sucesso!''"

definition screenshot_path :: string where
  "screenshot_path = ''jules-scratch/verification/multi_part_verification.png''"

section \<open>The two scripts\<close>

subsection \<open>\<^verbatim>\<open>add_client.py\<close>\<close>

text \<open>
  Lines 4 to 10 come before the \<^verbatim>\<open>try\<close> statement: an exception there leaves
  \<^verbatim>\<open>run\<close> at once. Lines 13 to 28 are the body of \<^verbatim>\<open>try\<close>, and line 32,
  \<^verbatim>\<open>browser.close()\<close>, is its \<^verbatim>\<open>finally\<close> block.
\<close>

definition add_client_setup :: "call list" where
  "add_client_setup =
     [Launch True,
      New_Page,
      On ''console'' Print_Console,
      On ''dialog'' Accept_Dialog]"

definition add_client_body :: "call list" where
  "add_client_body =
     [Goto pessoas_url,
      Expect_Visible navbar,
      Fill (Label ''Nome Completo'') ''Test Client'',
      Select_Option (Label ''Tipo'') ''Cliente'',
      Click salvar,
      Wait_For_Timeout 2000]"

definition run_add_client :: "world \<Rightarrow> outcome \<times> state" where
  "run_add_client w =
     (case seq w add_client_setup initial of
        (Raised, s) \<Rightarrow> (Raised, s)
      | (Returned, s) \<Rightarrow> try_finally (seq w add_client_body) (perform w Close) s)"

subsection \<open>\<^verbatim>\<open>verify_multi_part_devolution.py\<close>\<close>

text \<open>
  Lines 4 and 5 come before the \<^verbatim>\<open>try\<close> statement, lines 9 to 54 are its body and
  line 57, \<^verbatim>\<open>browser.close()\<close>, is its \<^verbatim>\<open>finally\<close> block. No \<^verbatim>\<open>page.on\<close> is
  called in this script.
\<close>

definition verify_setup :: "call list" where
  "verify_setup = [Launch True, New_Page]"

definition verify_body :: "call list" where
  "verify_body =
     [Goto pessoas_url,
      Fill (Label ''Nome Completo'') ''Test Client'',
      Select_Option (Label ''Tipo'') ''Cliente'',
      Click salvar,
      Wait_For_Timeout 2000,
      Goto cadastro_url,
      Expect_Visible navbar,
      Click adicionar_peca,
      Fill (Within part1 (Label codigo_da_peca)) ''PART-001'',
      Fill (Within part1 (Label ''Quantidade'')) ''1'',
      Fill (Within part1 (Label descricao_da_peca)) ''Part 1 Description'',
      Fill (Within part2 (Label codigo_da_peca)) ''PART-002'',
      Fill (Within part2 (Label ''Quantidade'')) ''2'',
      Fill (Within part2 (Label descricao_da_peca)) ''Part 2 Description'',
      Select_Option (Label ''Cliente'') ''Test Client'',
      Fill (Label requisicao_de_venda) ''REQ-123'',
      Select_Option (Label acao_na_requisicao) ''Alterada'',
      Fill (Label ''Data da Venda'') ''2023-01-01'',
      Fill (Label data_da_devolucao) ''2023-01-02'',
      Click salvar_devolucao,
      Expect_Visible success_alert,
      Expect_Contain_Text success_alert success_text,
      Screenshot screenshot_path]"

definition run_verify_multi_part_devolution :: "world \<Rightarrow> outcome \<times> state" where
  "run_verify_multi_part_devolution w =
     (case seq w verify_setup initial of
        (Raised, s) \<Rightarrow> (Raised, s)
      | (Returned, s) \<Rightarrow> try_finally (seq w verify_body) (perform w Close) s)"

section \<open>Vocabulary for stating properties of runs\<close>

subsection \<open>Traces\<close>

text \<open>
  The trace of a run is the sequence of its library calls with their outcomes;
  \<open>completed cs\<close> is the trace of \<open>cs\<close> when every call returns and
  \<open>stops cs k\<close> the trace when call number \<open>k\<close> is the first to raise.
\<close>

type_synonym trace = "(call \<times> outcome) list"

fun trace :: "entry list \<Rightarrow> trace" where
  "trace [] = []"
| "trace (Did c out # es) = (c, out) # trace es"
| "trace (e # es) = trace es"

definition completed :: "call list \<Rightarrow> trace" where
  "completed cs = map (\<lambda>c. (c, Returned)) cs"

definition stops :: "call list \<Rightarrow> nat \<Rightarrow> trace" where
  "stops cs k = completed (take k cs) @ [(cs ! k, Raised)]"

text \<open>The shape shared by both run functions.\<close>

definition guarded :: "world \<Rightarrow> call list \<Rightarrow> call list \<Rightarrow> outcome \<times> state" where
  "guarded w S B =
     (case seq w S initial of
        (Raised, s) \<Rightarrow> (Raised, s)
      | (Returned, s) \<Rightarrow> try_finally (seq w B) (perform w Close) s)"

text \<open>
  A property of call sequences that survives cutting the sequence short and closing
  the browser afterwards holds of every run as soon as it holds of the calls written
  in the script.
\<close>

definition stable :: "(call list \<Rightarrow> bool) \<Rightarrow> bool" where
  "stable P \<longleftrightarrow>
     (\<forall>xs ys. P (xs @ ys) \<longrightarrow> P xs) \<and> (\<forall>xs. P xs \<longrightarrow> Close \<notin> set xs \<longrightarrow> P (xs @ [Close]))"

subsection \<open>Kinds of calls\<close>

text \<open>
  Filling covers \<^verbatim>\<open>fill\<close> and \<^verbatim>\<open>select_option\<close>; the submit clicks are the clicks
  on \<^verbatim>\<open>Salvar\<close> (client form) and on the button that saves the devolution; a check
  is an \<^verbatim>\<open>expect\<close> assertion or the screenshot, and the checks of the outcome are the
  screenshot and the assertions on the success message; a part fill is a \<^verbatim>\<open>fill\<close> of
  a field found inside another locator (\<^verbatim>\<open>part1\<close>, \<^verbatim>\<open>part2\<close>).
\<close>

fun is_launch :: "call \<Rightarrow> bool" where
  "is_launch (Launch h) = True"
| "is_launch c = False"

fun is_goto :: "call \<Rightarrow> bool" where
  "is_goto (Goto u) = True"
| "is_goto c = False"

fun is_on :: "call \<Rightarrow> bool" where
  "is_on (On ev h) = True"
| "is_on c = False"

fun is_fill :: "call \<Rightarrow> bool" where
  "is_fill (Fill l v) = True"
| "is_fill (Select_Option l v) = True"
| "is_fill c = False"

fun is_assertion :: "call \<Rightarrow> bool" where
  "is_assertion (Expect_Visible l) = True"
| "is_assertion (Expect_Contain_Text l t) = True"
| "is_assertion c = False"

fun is_screenshot :: "call \<Rightarrow> bool" where
  "is_screenshot (Screenshot p) = True"
| "is_screenshot c = False"

definition is_submit :: "call \<Rightarrow> bool" where
  "is_submit c = (c = Click salvar \<or> c = Click salvar_devolucao)"

definition is_check :: "call \<Rightarrow> bool" where
  "is_check c = (is_assertion c \<or> is_screenshot c)"

fun selector_of :: "call \<Rightarrow> selector option" where
  "selector_of (Expect_Visible l) = Some l"
| "selector_of (Expect_Contain_Text l t) = Some l"
| "selector_of (Fill l v) = Some l"
| "selector_of (Select_Option l v) = Some l"
| "selector_of (Click l) = Some l"
| "selector_of c = None"

definition is_outcome_check :: "call \<Rightarrow> bool" where
  "is_outcome_check c = (is_screenshot c \<or> (is_assertion c \<and> selector_of c = Some success_alert))"


subsection \<open>Literal values of the devolution scenario\<close>

text \<open>
  Lines 28 to 36 of \<^verbatim>\<open>verify_multi_part_devolution.py\<close> fill the two part rows and
  lines 39 to 43 the fields common to the devolution. The client form is filled by
  lines 20 and 21 of \<^verbatim>\<open>add_client.py\<close> and by lines 10 and 11 of the other script.
\<close>

definition client_form :: "call list" where
  "client_form =
     [Fill (Label ''Nome Completo'') ''Test Client'',
      Select_Option (Label ''Tipo'') ''Cliente'']"

definition part_fills :: "call list" where
  "part_fills =
     [Fill (Within part1 (Label codigo_da_peca)) ''PART-001'',
      Fill (Within part1 (Label ''Quantidade'')) ''1'',
      Fill (Within part1 (Label descricao_da_peca)) ''Part 1 Description'',
      Fill (Within part2 (Label codigo_da_peca)) ''PART-002'',
      Fill (Within part2 (Label ''Quantidade'')) ''2'',
      Fill (Within part2 (Label descricao_da_peca)) ''Part 2 Description'']"

definition devolution_form :: "call list" where
  "devolution_form =
     part_fills @
     [Select_Option (Label ''Cliente'') ''Test Client'',
      Fill (Label requisicao_de_venda) ''REQ-123'',
      Select_Option (Label acao_na_requisicao) ''Alterada'',
      Fill (Label ''Data da Venda'') ''2023-01-01'',
      Fill (Label data_da_devolucao) ''2023-01-02'']"

subsection \<open>Order of calls\<close>

text \<open>
  \<open>only_after P Q cs\<close>: in \<open>cs\<close> no \<open>Q\<close> occurs before the first \<open>P\<close>.
  \<open>no_later reset P Q cs\<close>: after a \<open>Q\<close> no \<open>P\<close> follows until the next
  \<open>reset\<close>; with no reset at all this is \<open>precedes P Q\<close> (every \<open>P\<close> comes before
  every \<open>Q\<close>), and with a navigation as reset it is the same within one page, a call
  belonging to the page last navigated to.
\<close>

fun only_after :: "('a \<Rightarrow> bool) \<Rightarrow> ('a \<Rightarrow> bool) \<Rightarrow> 'a list \<Rightarrow> bool" where
  "only_after P Q [] = True"
| "only_after P Q (c # cs) = (if P c then True else \<not> Q c \<and> only_after P Q cs)"

fun no_later :: "('a \<Rightarrow> bool) \<Rightarrow> ('a \<Rightarrow> bool) \<Rightarrow> ('a \<Rightarrow> bool) \<Rightarrow> 'a list \<Rightarrow> bool" where
  "no_later reset P Q [] = True"
| "no_later reset P Q (c # cs) =
     ((Q c \<longrightarrow> \<not> list_ex P (takeWhile (\<lambda>x. \<not> reset x) cs)) \<and> no_later reset P Q cs)"

definition precedes :: "('a \<Rightarrow> bool) \<Rightarrow> ('a \<Rightarrow> bool) \<Rightarrow> 'a list \<Rightarrow> bool" where
  "precedes P Q cs = no_later (\<lambda>x. False) P Q cs"

definition precedes_on_page :: "(call \<Rightarrow> bool) \<Rightarrow> (call \<Rightarrow> bool) \<Rightarrow> call list \<Rightarrow> bool" where
  "precedes_on_page P Q cs = no_later is_goto P Q cs"

text \<open>
  Every field belongs to the form of one page: the client form to the page of
  \<open>pessoas_url\<close>, the devolution form to the page of \<open>cadastro_url\<close>.
  \<open>fills_on p cs\<close> pairs every fill of \<open>cs\<close> with the page the browser was last sent
  to when the fill is made (\<open>p\<close> before the first navigation). Fills follow the
  navigation when each field is filled after a navigation to its own page, with no
  other navigation in between.
\<close>

definition page_of_field :: "call \<Rightarrow> string option" where
  "page_of_field c =
     (if c \<in> set client_form then Some pessoas_url
      else if c \<in> set devolution_form then Some cadastro_url
      else None)"

fun fills_on :: "string option \<Rightarrow> call list \<Rightarrow> (string option \<times> call) list" where
  "fills_on p [] = []"
| "fills_on p (Goto u # cs) = fills_on (Some u) cs"
| "fills_on p (c # cs) = (if is_fill c then (p, c) # fills_on p cs else fills_on p cs)"

definition on_own_page :: "string option \<times> call \<Rightarrow> bool" where
  "on_own_page x = (fst x \<noteq> None \<and> fst x = page_of_field (snd x))"

definition fills_follow_navigation :: "call list \<Rightarrow> bool" where
  "fills_follow_navigation cs = list_all on_own_page (fills_on None cs)"

text \<open>
  The order both scripts keep: the browser is launched before any navigation; fields
  are filled only after a navigation, each after the navigation to its own page; on a
  page no field is filled once the form was submitted, and a submit click comes only after a fill; the check of the navigation bar
  comes before the fills and the submit click of its page; the checks of the outcome (the
  assertions on the success message, the screenshot) come after the devolution form was
  submitted, and no form is submitted after them.
\<close>

definition ordered :: "call list \<Rightarrow> bool" where
  "ordered cs \<longleftrightarrow>
     only_after is_launch is_goto cs \<and>
     only_after is_goto is_fill cs \<and>
     fills_follow_navigation cs \<and>
     precedes_on_page is_fill is_submit cs \<and>
     only_after is_fill is_submit cs \<and>
     precedes_on_page (\<lambda>c. c = Expect_Visible navbar) (\<lambda>c. is_fill c \<or> is_submit c) cs \<and>
     only_after (\<lambda>c. c = Click salvar_devolucao) is_outcome_check cs \<and>
     precedes is_submit is_outcome_check cs"

text \<open>The browser is closed once, by the last call.\<close>

definition closes_last :: "call list \<Rightarrow> bool" where
  "closes_last cs = (cs \<noteq> [] \<and> last cs = Close \<and> Close \<notin> set (butlast cs))"

subsection \<open>Dialogs\<close>

text \<open>
  \<open>raised_dialogs w h cs\<close> are the messages of the dialogs that the world \<open>w\<close>
  raises while the calls \<open>cs\<close> are made after the calls \<open>h\<close>; \<open>accepted\<close> and
  \<open>not_handled\<close> read from a log the dialogs that a handler of the script accepted and
  those that found no handler. The interactions of a run with the browser are its
  library calls and the dialogs it accepts (printing a console message goes to the
  standard output).
\<close>

fun dialogs :: "page_event list \<Rightarrow> string list" where
  "dialogs [] = []"
| "dialogs (Dialog m # es) = m # dialogs es"
| "dialogs (e # es) = dialogs es"

fun raised_dialogs :: "world \<Rightarrow> call list \<Rightarrow> call list \<Rightarrow> string list" where
  "raised_dialogs w h [] = []"
| "raised_dialogs w h (c # cs) = dialogs (emits (w h c)) @ raised_dialogs w (h @ [c]) cs"

fun accepted :: "entry list \<Rightarrow> string list" where
  "accepted [] = []"
| "accepted (Accepted m # es) = m # accepted es"
| "accepted (e # es) = accepted es"

fun not_handled :: "entry list \<Rightarrow> string list" where
  "not_handled [] = []"
| "not_handled (Not_Handled m # es) = m # not_handled es"
| "not_handled (e # es) = not_handled es"

fun interactions :: "entry list \<Rightarrow> entry list" where
  "interactions [] = []"
| "interactions (Did c out # es) = Did c out # interactions es"
| "interactions (Accepted m # es) = Accepted m # interactions es"
| "interactions (e # es) = interactions es"

fun is_acceptance :: "entry \<Rightarrow> bool" where
  "is_acceptance (Accepted m) = True"
| "is_acceptance e = False"

subsection \<open>Locators\<close>

text \<open>
  \<open>claimed_locator\<close> follows the words of the specification: an element is found by
  a form-field label, by the id of the navigation element, by the visible label of a
  button, or by the CSS class of the success message. \<open>actual_locator\<close> adds what the
  devolution script does for the part fields: a label inside one of the two part rows.
\<close>

fun claimed_locator :: "selector \<Rightarrow> bool" where
  "claimed_locator (Label n) = True"
| "claimed_locator (Css s) = (s = ''#navbarNav'' \<or> s = ''.alert-success'')"
| "claimed_locator (Role r n) = (r = ''button'')"
| "claimed_locator (Within a b) = False"

fun actual_locator :: "selector \<Rightarrow> bool" where
  "actual_locator (Within row (Label n)) = (row = part1 \<or> row = part2)"
| "actual_locator l = claimed_locator l"

definition located_by :: "(selector \<Rightarrow> bool) \<Rightarrow> call \<Rightarrow> bool" where
  "located_by ok c = (case selector_of c of None \<Rightarrow> True | Some l \<Rightarrow> ok l)"

subsection \<open>Waits\<close>

text \<open>
  The waits for a fixed time (\<^verbatim>\<open>wait_for_timeout\<close>) of a sequence of calls, each with
  the call made just before it and its duration in milliseconds.
\<close>

fun timed_waits :: "call option \<Rightarrow> call list \<Rightarrow> (call option \<times> nat) list" where
  "timed_waits prev [] = []"
| "timed_waits prev (Wait_For_Timeout ms # cs) =
     (prev, ms) # timed_waits (Some (Wait_For_Timeout ms)) cs"
| "timed_waits prev (c # cs) = timed_waits (Some c) cs"

subsection \<open>The part rows of the devolution form\<close>








subsection \<open>Some worlds\<close>

text \<open>
  Every call returns and the page is silent (\<open>calm\<close>); the page cannot be created
  (\<open>no_page\<close>); the navigation bar never becomes visible (\<open>no_navbar\<close>); the
  application answers the click on \<^verbatim>\<open>Salvar\<close> with an alert (\<open>alerting\<close>); the
  success message never contains the expected text (\<open>no_success\<close>).
\<close>

definition calm :: world where
  "calm = (\<lambda>h c. Reaction False [])"

definition no_page :: world where
  "no_page = (\<lambda>h c. Reaction (c = New_Page) [])"

definition no_navbar :: world where
  "no_navbar = (\<lambda>h c. Reaction (c = Expect_Visible navbar) [])"

definition alerting :: world where
  "alerting = (\<lambda>h c. Reaction False (if c = Click salvar then [Dialog ''Cliente salvo''] else []))"

definition no_success :: world where
  "no_success = (\<lambda>h c. Reaction (c = Expect_Contain_Text success_alert success_text) [])"

subsection \<open>Invariants of the dialog handling\<close>

text \<open>While no listener is registered, no dialog is accepted.\<close>

definition unattended :: "world \<Rightarrow> state \<Rightarrow> bool" where
  "unattended w s \<longleftrightarrow>
     listeners s = [] \<and> accepted (log s) = [] \<and>
     not_handled (log s) = raised_dialogs w [] (calls (log s))"

text \<open>With the listeners of \<^verbatim>\<open>add_client.py\<close> in place, every dialog is accepted.\<close>

definition attended :: "world \<Rightarrow> state \<Rightarrow> bool" where
  "attended w s \<longleftrightarrow>
     listeners s = [(''console'', Print_Console), (''dialog'', Accept_Dialog)] \<and>
     not_handled (log s) = [] \<and>
     accepted (log s) = raised_dialogs w [] (calls (log s))"

section \<open>General facts about runs\<close>

lemmas literals = c_cedilla_def a_tilde_def o_acute_def cao_def pessoas_url_def cadastro_url_def
  navbar_def salvar_def adicionar_peca_def salvar_devolucao_def part_row_def part1_def part2_def
  codigo_da_peca_def descricao_da_peca_def requisicao_de_venda_def acao_na_requisicao_def
  data_da_devolucao_def success_alert_def success_text_def screenshot_path_def

lemmas run_defs = run_add_client_def run_verify_multi_part_devolution_def add_client_setup_def
  add_client_body_def verify_setup_def verify_body_def perform_def try_finally_def initial_def
  dispatch_def Let_def

lemma trace_append: "trace (xs @ ys) = trace xs @ trace ys"
  by (induction xs rule: trace.induct) simp_all

lemma calls_trace: "calls es = map fst (trace es)"
  by (induction es rule: trace.induct) simp_all

lemma handle_not_Did: "handle h e \<noteq> Did c out"
  by (cases "(h, e)" rule: handle.cases) simp_all

lemma trace_map_handle: "trace (map (\<lambda>x. handle (f x) e) xs) = []"
proof (induction xs)
  case Nil
  show ?case by simp
next
  case (Cons a xs)
  then show ?case
    by (cases "handle (f a) e") (simp_all add: handle_not_Did)
qed

lemma trace_dispatch: "trace (dispatch ls e) = []"
  by (simp add: dispatch_def Let_def comp_def trace_map_handle split: page_event.splits)

lemma trace_dispatch_all: "trace (concat (map (dispatch ls) es)) = []"
  by (induction es) (simp_all add: trace_append trace_dispatch)

lemma perform_trace:
  "trace (log (snd (perform w c s))) = trace (log s) @ [(c, fst (perform w c s))]"
  by (simp add: perform_def Let_def trace_append trace_dispatch_all)

lemma completed_simps:
  "completed [] = []"
  "completed (c # cs) = (c, Returned) # completed cs"
  "completed (xs @ ys) = completed xs @ completed ys"
  by (simp_all add: completed_def)

lemma stops_Cons:
  "stops (c # cs) 0 = [(c, Raised)]"
  "stops (c # cs) (Suc k) = (c, Returned) # stops cs k"
  by (simp_all add: stops_def completed_def)

lemma seq_trace:
  "(fst (seq w cs s) = Returned \<and> trace (log (snd (seq w cs s))) = trace (log s) @ completed cs) \<or>
   (fst (seq w cs s) = Raised \<and>
      (\<exists>k<length cs. trace (log (snd (seq w cs s))) = trace (log s) @ stops cs k))"
proof (induction cs arbitrary: s)
  case Nil
  show ?case by (simp add: completed_simps)
next
  case (Cons c cs)
  obtain out s' where p: "perform w c s = (out, s')" by (cases "perform w c s")
  have t': "trace (log s') = trace (log s) @ [(c, out)]"
    using perform_trace [of w c s] p by simp
  show ?case
  proof (cases out)
    case Raised
    have "trace (log s') = trace (log s) @ stops (c # cs) 0"
      using t' Raised by (simp add: stops_Cons)
    with p Raised show ?thesis by auto
  next
    case Returned
    from Cons.IH [of s'] show ?thesis
    proof
      assume "fst (seq w cs s') = Returned \<and>
              trace (log (snd (seq w cs s'))) = trace (log s') @ completed cs"
      with p t' Returned show ?thesis by (simp add: completed_simps)
    next
      assume "fst (seq w cs s') = Raised \<and>
              (\<exists>k<length cs. trace (log (snd (seq w cs s'))) = trace (log s') @ stops cs k)"
      then obtain k where k: "fst (seq w cs s') = Raised" "k < length cs"
          "trace (log (snd (seq w cs s'))) = trace (log s') @ stops cs k"
        by blast
      have "trace (log (snd (seq w (c # cs) s))) = trace (log s) @ stops (c # cs) (Suc k)"
        using p t' Returned k(3) by (simp add: stops_Cons)
      moreover have "fst (seq w (c # cs) s) = Raised"
        using p Returned k(1) by simp
      moreover have "Suc k < length (c # cs)" using k(2) by simp
      ultimately show ?thesis by blast
    qed
  qed
qed

lemma run_add_client_guarded: "run_add_client w = guarded w add_client_setup add_client_body"
  by (simp add: run_add_client_def guarded_def)

lemma run_verify_guarded:
  "run_verify_multi_part_devolution w = guarded w verify_setup verify_body"
  by (simp add: run_verify_multi_part_devolution_def guarded_def)

lemma guarded_cases:
  obtains
    (setup_raised) k where "k < length S" "fst (seq w S initial) = Raised"
      "fst (guarded w S B) = Raised" "trace (log (snd (guarded w S B))) = stops S k"
  | (body_raised) k out where "k < length B" "fst (seq w S initial) = Returned"
      "fst (guarded w S B) = Raised"
      "trace (log (snd (guarded w S B))) = completed S @ stops B k @ [(Close, out)]"
  | (body_returned) out where "fst (seq w S initial) = Returned"
      "fst (guarded w S B) = out"
      "trace (log (snd (guarded w S B))) = completed S @ completed B @ [(Close, out)]"
proof -
  obtain o1 s1 where s1: "seq w S initial = (o1, s1)" by (cases "seq w S initial")
  show thesis
  proof (cases o1)
    case Raised
    from seq_trace [of w S initial] s1 Raised obtain k where
      "k < length S" "trace (log s1) = stops S k"
      by (auto simp: initial_def)
    with s1 Raised show thesis
      by (intro setup_raised [of k]) (simp_all add: guarded_def)
  next
    case Returned
    from seq_trace [of w S initial] s1 Returned have t1: "trace (log s1) = completed S"
      by (auto simp: initial_def)
    obtain o2 s2 where s2: "seq w B s1 = (o2, s2)" by (cases "seq w B s1")
    obtain o3 s3 where s3: "perform w Close s2 = (o3, s3)" by (cases "perform w Close s2")
    have t3: "trace (log s3) = trace (log s2) @ [(Close, o3)]"
      using perform_trace [of w Close s2] s3 by simp
    have g: "guarded w S B = (case o3 of Raised \<Rightarrow> (Raised, s3) | Returned \<Rightarrow> (o2, s3))"
      using s1 Returned s2 s3 by (simp add: guarded_def try_finally_def)
    show thesis
    proof (cases o2)
      case Raised
      from seq_trace [of w B s1] s2 Raised t1 obtain k where
        "k < length B" "trace (log s2) = completed S @ stops B k"
        by auto
      with g t3 s1 Returned Raised show thesis
        by (intro body_raised [of k o3]) (simp_all split: outcome.splits)
    next
      case Returned
      from seq_trace [of w B s1] s2 Returned t1 have "trace (log s2) = completed S @ completed B"
        by auto
      with g t3 s1 \<open>o1 = Returned\<close> Returned show thesis
        by (intro body_returned [of o3]) (simp_all split: outcome.splits)
    qed
  qed
qed

lemma map_fst_completed: "map fst (completed cs) = cs"
  by (simp add: completed_def comp_def)

lemma map_fst_stops: "k < length cs \<Longrightarrow> map fst (stops cs k) = take (Suc k) cs"
  by (simp add: stops_def map_fst_completed take_Suc_conv_app_nth)

lemma set_completed: "(c, out) \<in> set (completed cs) \<longleftrightarrow> out = Returned \<and> c \<in> set cs"
  by (auto simp: completed_def)

lemma guarded_calls_cases:
  obtains
    (setup_raised) k where "k < length S" "fst (seq w S initial) = Raised"
      "calls (log (snd (guarded w S B))) = take (Suc k) S"
  | (entered) k where "k \<le> length B" "fst (seq w S initial) = Returned"
      "calls (log (snd (guarded w S B))) = S @ take k B @ [Close]"
proof (cases rule: guarded_cases [of S w B])
  case (setup_raised k)
  then show ?thesis
    by (intro that(1) [of k]) (simp_all add: calls_trace map_fst_stops)
next
  case (body_raised k out)
  then show ?thesis
    by (intro that(2) [of "Suc k"]) (simp_all add: calls_trace map_fst_stops map_fst_completed)
next
  case (body_returned out)
  then show ?thesis
    by (intro that(2) [of "length B"]) (simp_all add: calls_trace map_fst_completed)
qed

lemma stableI:
  assumes "\<And>xs ys. P (xs @ ys) \<Longrightarrow> P xs"
    and "\<And>xs. P xs \<Longrightarrow> Close \<notin> set xs \<Longrightarrow> P (xs @ [Close])"
  shows "stable P"
  using assms unfolding stable_def by blast

lemma stable_conj: "stable P \<Longrightarrow> stable Q \<Longrightarrow> stable (\<lambda>cs. P cs \<and> Q cs)"
  unfolding stable_def by blast

lemma stable_guarded:
  assumes st: "stable P" and full: "P (S @ B)" and nc: "Close \<notin> set (S @ B)"
  shows "P (calls (log (snd (guarded w S B))))"
proof (cases rule: guarded_calls_cases [of S w B])
  case (setup_raised k)
  have e: "take (Suc k) S @ (drop (Suc k) S @ B) = S @ B"
    by (simp only: append_assoc [symmetric] append_take_drop_id)
  from full have "P ((take (Suc k) S) @ (drop (Suc k) S @ B))" by (simp only: e)
  with st have "P (take (Suc k) S)" unfolding stable_def by blast
  with setup_raised show ?thesis by simp
next
  case (entered k)
  have e: "(S @ take k B) @ drop k B = S @ B" by simp
  from full have "P ((S @ take k B) @ drop k B)" by (simp only: e)
  with st have p: "P (S @ take k B)" unfolding stable_def by blast
  have "Close \<notin> set (S @ take k B)" using nc by (auto dest: in_set_takeD)
  with st p have "P ((S @ take k B) @ [Close])" unfolding stable_def by blast
  with entered show ?thesis by simp
qed

lemma only_after_append: "only_after P Q (xs @ ys) \<Longrightarrow> only_after P Q xs"
  by (induction xs) (auto split: if_splits)

lemma only_after_snoc: "only_after P Q xs \<Longrightarrow> \<not> Q c \<Longrightarrow> only_after P Q (xs @ [c])"
  by (induction xs) (auto split: if_splits)

lemma stable_only_after: "\<not> Q Close \<Longrightarrow> stable (only_after P Q)"
  by (rule stableI) (auto dest: only_after_append intro: only_after_snoc)

lemma set_takeWhile_append1: "set (takeWhile R xs) \<subseteq> set (takeWhile R (xs @ ys))"
  by (induction xs) auto

lemma set_takeWhile_snoc: "set (takeWhile R (xs @ [c])) \<subseteq> insert c (set (takeWhile R xs))"
  by (induction xs) auto

lemma no_later_append: "no_later r P Q (xs @ ys) \<Longrightarrow> no_later r P Q xs"
proof (induction xs)
  case Nil
  show ?case by simp
next
  case (Cons x xs)
  then show ?case
    using set_takeWhile_append1 [of "\<lambda>x. \<not> r x" xs ys]
    by (auto simp: list_ex_iff)
qed

lemma no_later_snoc: "no_later r P Q xs \<Longrightarrow> \<not> P c \<Longrightarrow> no_later r P Q (xs @ [c])"
proof (induction xs)
  case Nil
  show ?case by simp
next
  case (Cons x xs)
  then show ?case
    using set_takeWhile_snoc [of "\<lambda>x. \<not> r x" xs c]
    by (auto simp: list_ex_iff)
qed

lemma stable_no_later: "\<not> P Close \<Longrightarrow> stable (no_later r P Q)"
  by (rule stableI) (auto dest: no_later_append intro: no_later_snoc)

lemma stable_list_all: "Q Close \<Longrightarrow> stable (list_all Q)"
  by (rule stableI) auto

lemma stable_distinct: "stable distinct"
  by (rule stableI) auto

lemma nth_in_take:
  assumes "distinct xs" "n < length xs" "xs ! n \<in> set (take m xs)"
  shows "n < m"
proof -
  from assms(3) obtain i where i: "i < length (take m xs)" "take m xs ! i = xs ! n"
    by (auto simp: in_set_conv_nth)
  then have "i < m" "i < length xs" "xs ! i = xs ! n" by simp_all
  with assms(1,2) have "i = n" by (simp add: nth_eq_iff_index_eq)
  with \<open>i < m\<close> show ?thesis by simp
qed

lemma no_close_add_client: "Close \<notin> set (add_client_setup @ add_client_body)"
  by (simp add: add_client_setup_def add_client_body_def)

lemma no_close_verify: "Close \<notin> set (verify_setup @ verify_body)"
  by (simp add: verify_setup_def verify_body_def)

lemma closes_last_guarded:
  assumes "fst (seq w S initial) = Returned" and nc: "Close \<notin> set (S @ B)"
  shows "closes_last (calls (log (snd (guarded w S B))))"
proof (cases rule: guarded_calls_cases [of S w B])
  case (setup_raised k)
  with assms(1) show ?thesis by simp
next
  case (entered k)
  have "Close \<notin> set (S @ take k B)" using nc by (auto dest: in_set_takeD)
  then have "closes_last ((S @ take k B) @ [Close])"
    unfolding closes_last_def by (simp only: butlast_snoc last_snoc) simp
  with entered show ?thesis by simp
qed

lemma calm_add_client_calls:
  "calls (log (snd (run_add_client calm))) = add_client_setup @ add_client_body @ [Close]"
  by (simp add: run_defs calm_def)

lemma calm_verify_calls:
  "calls (log (snd (run_verify_multi_part_devolution calm))) = verify_setup @ verify_body @ [Close]"
  by (simp add: run_defs calm_def)

lemma located_add_client: "list_all (located_by actual_locator) (add_client_setup @ add_client_body)"
  by (simp add: add_client_setup_def add_client_body_def located_by_def navbar_def salvar_def)

lemma located_verify: "list_all (located_by actual_locator) (verify_setup @ verify_body)"
  by (simp add: verify_setup_def verify_body_def located_by_def navbar_def salvar_def
      adicionar_peca_def salvar_devolucao_def success_alert_def)

lemma seq_preserves:
  assumes "\<And>c s. c \<in> set cs \<Longrightarrow> I s \<Longrightarrow> I (snd (perform w c s))" and "I s"
  shows "I (snd (seq w cs s))"
  using assms
proof (induction cs arbitrary: s)
  case Nil
  then show ?case by simp
next
  case (Cons c cs)
  obtain out s' where p: "perform w c s = (out, s')" by (cases "perform w c s")
  have "I s'" using Cons.prems(1) [of c s] Cons.prems(2) p by simp
  then have "I (snd (seq w cs s'))" using Cons.IH Cons.prems(1) by simp
  with p \<open>I s'\<close> show ?case by (cases out) simp_all
qed

lemma try_finally_preserves:
  assumes "\<And>s. I s \<Longrightarrow> I (snd (body s))" and "\<And>s. I s \<Longrightarrow> I (snd (fin s))" and "I s"
  shows "I (snd (try_finally body fin s))"
proof -
  obtain o1 s1 where b: "body s = (o1, s1)" by (cases "body s")
  obtain o2 s2 where f: "fin s1 = (o2, s2)" by (cases "fin s1")
  have "I s1" using assms(1) [OF assms(3)] b by simp
  then have "I s2" using assms(2) [of s1] f by simp
  with b f show ?thesis by (cases o2) (simp_all add: try_finally_def)
qed

lemma guarded_preserves:
  assumes ok: "fst (seq w S initial) = Returned \<Longrightarrow> I (snd (seq w S initial))"
    and failed: "fst (seq w S initial) = Raised \<Longrightarrow> Q (snd (seq w S initial))"
    and step: "\<And>c s. c \<in> set (B @ [Close]) \<Longrightarrow> I s \<Longrightarrow> I (snd (perform w c s))"
    and fin: "\<And>s. I s \<Longrightarrow> Q s"
  shows "Q (snd (guarded w S B))"
proof -
  obtain o1 s1 where s1: "seq w S initial = (o1, s1)" by (cases "seq w S initial")
  show ?thesis
  proof (cases o1)
    case Raised
    with s1 failed show ?thesis by (simp add: guarded_def)
  next
    case Returned
    with s1 ok have "I s1" by simp
    then have "I (snd (try_finally (seq w B) (perform w Close) s1))"
      by (intro try_finally_preserves [where I = I] seq_preserves [where I = I] step) simp_all
    with s1 Returned fin show ?thesis by (simp add: guarded_def)
  qed
qed

lemma accepted_append: "accepted (xs @ ys) = accepted xs @ accepted ys"
  by (induction xs rule: accepted.induct) simp_all

lemma not_handled_append: "not_handled (xs @ ys) = not_handled xs @ not_handled ys"
  by (induction xs rule: not_handled.induct) simp_all

lemma raised_dialogs_append:
  "raised_dialogs w h (xs @ ys) = raised_dialogs w h xs @ raised_dialogs w (h @ xs) ys"
  by (induction xs arbitrary: h) simp_all

lemma perform_calls: "calls (log (snd (perform w c s))) = calls (log s) @ [c]"
  by (simp add: calls_trace perform_trace)

lemma perform_listeners: "\<not> is_on c \<Longrightarrow> listeners (snd (perform w c s)) = listeners s"
  by (cases c) (simp_all add: perform_def Let_def)

lemma perform_accepted:
  "accepted (log (snd (perform w c s))) =
     accepted (log s) @ accepted (concat (map (dispatch (listeners s)) (emits (w (calls (log s)) c))))"
  by (simp add: perform_def Let_def accepted_append)

lemma perform_not_handled:
  "not_handled (log (snd (perform w c s))) =
     not_handled (log s) @
     not_handled (concat (map (dispatch (listeners s)) (emits (w (calls (log s)) c))))"
  by (simp add: perform_def Let_def not_handled_append)

text \<open>Dispatch without any listener, and with the two listeners of \<^verbatim>\<open>add_client.py\<close>.\<close>

lemma dispatch_none:
  "accepted (concat (map (dispatch []) es)) = []"
  "not_handled (concat (map (dispatch []) es)) = dialogs es"
  by (induction es rule: dialogs.induct)
    (simp_all add: dispatch_def accepted_append not_handled_append)

lemma dispatch_both:
  "accepted (concat (map (dispatch [(''console'', Print_Console), (''dialog'', Accept_Dialog)]) es))
     = dialogs es"
  "not_handled (concat (map (dispatch [(''console'', Print_Console), (''dialog'', Accept_Dialog)]) es))
     = []"
  by (induction es rule: dialogs.induct)
    (simp_all add: dispatch_def accepted_append not_handled_append)

lemma accepted_handle_console:
  "accepted (map (\<lambda>x. handle (f x) (Console_Message t)) xs) = []"
proof (induction xs)
  case Nil
  show ?case by simp
next
  case (Cons x xs)
  then show ?case by (cases "f x") simp_all
qed

lemma not_handled_handle_console:
  "not_handled (map (\<lambda>x. handle (f x) (Console_Message t)) xs) = []"
proof (induction xs)
  case Nil
  show ?case by simp
next
  case (Cons x xs)
  then show ?case by (cases "f x") simp_all
qed

lemma dispatch_no_dialogs:
  assumes "dialogs es = []"
  shows "accepted (concat (map (dispatch ls) es)) = []"
    and "not_handled (concat (map (dispatch ls) es)) = []"
  using assms
  by (induction es rule: dialogs.induct)
    (simp_all add: dispatch_def Let_def comp_def accepted_append not_handled_append
      accepted_handle_console not_handled_handle_console)

lemma raised_dialogs_snoc:
  "raised_dialogs w h (cs @ [c]) = raised_dialogs w h cs @ dialogs (emits (w (h @ cs) c))"
  by (simp add: raised_dialogs_append)

lemma perform_unattended:
  assumes "\<not> is_on c" "unattended w s"
  shows "unattended w (snd (perform w c s))"
  using assms
  by (simp add: unattended_def perform_listeners perform_accepted perform_not_handled
      perform_calls dispatch_none raised_dialogs_snoc)

lemma perform_attended:
  assumes "\<not> is_on c" "attended w s"
  shows "attended w (snd (perform w c s))"
  using assms
  by (simp add: attended_def perform_listeners perform_accepted perform_not_handled
      perform_calls dispatch_both raised_dialogs_snoc)

lemma seq_silent:
  assumes "raised_dialogs w (calls (log s)) cs = []"
  shows "accepted (log (snd (seq w cs s))) = accepted (log s) \<and>
         not_handled (log (snd (seq w cs s))) = not_handled (log s)"
  using assms
proof (induction cs arbitrary: s)
  case Nil
  show ?case by simp
next
  case (Cons c cs)
  obtain out s' where p: "perform w c s = (out, s')" by (cases "perform w c s")
  from Cons.prems have d: "dialogs (emits (w (calls (log s)) c)) = []"
    and r: "raised_dialogs w (calls (log s) @ [c]) cs = []"
    by simp_all
  have c': "calls (log s') = calls (log s) @ [c]"
    using perform_calls [of w c s] p by simp
  have a: "accepted (log s') = accepted (log s)" "not_handled (log s') = not_handled (log s)"
    using perform_accepted [of w c s] perform_not_handled [of w c s] p
      dispatch_no_dialogs [OF d, of "listeners s"]
    by simp_all
  from Cons.IH [of s'] r c' a p show ?case
    by (cases out) simp_all
qed

lemma add_client_listeners:
  assumes "fst (seq w add_client_setup initial) = Returned"
  shows "listeners (snd (seq w add_client_setup initial)) =
           [(''console'', Print_Console), (''dialog'', Accept_Dialog)]"
  using assms
  by (simp add: add_client_setup_def perform_def Let_def initial_def split: if_splits)

lemma no_on_verify: "c \<in> set (verify_setup @ verify_body @ [Close]) \<Longrightarrow> \<not> is_on c"
  by (auto simp: verify_setup_def verify_body_def)

lemma no_on_add_client_body: "c \<in> set (add_client_body @ [Close]) \<Longrightarrow> \<not> is_on c"
  by (auto simp: add_client_body_def)

lemma verify_unattended: "unattended w (snd (run_verify_multi_part_devolution w))"
proof -
  have i: "unattended w initial" by (simp add: unattended_def initial_def)
  have step: "unattended w (snd (perform w c s))"
    if "c \<in> set (verify_setup @ verify_body @ [Close])" "unattended w s" for c s
    using that by (intro perform_unattended no_on_verify)
  have s: "unattended w (snd (seq w verify_setup initial))"
  proof (rule seq_preserves [where I = "unattended w"])
    fix c s
    assume "c \<in> set verify_setup" "unattended w s"
    then show "unattended w (snd (perform w c s))" by (intro step) simp_all
  qed (rule i)
  show ?thesis
    unfolding run_verify_guarded
  proof (rule guarded_preserves [where I = "unattended w"])
    fix c s
    assume "c \<in> set (verify_body @ [Close])" "unattended w s"
    then show "unattended w (snd (perform w c s))" by (intro step) auto
  qed (simp_all add: s)
qed

lemma seq_returned_calls:
  "fst (seq w cs initial) = Returned \<Longrightarrow> calls (log (snd (seq w cs initial))) = cs"
  using seq_trace [of w cs initial]
  by (auto simp: calls_trace initial_def map_fst_completed)

lemma seq_raised_calls:
  "fst (seq w cs initial) = Raised \<Longrightarrow>
     \<exists>k<length cs. calls (log (snd (seq w cs initial))) = take (Suc k) cs"
  using seq_trace [of w cs initial]
  by (auto simp: calls_trace initial_def map_fst_stops)

lemma raised_dialogs_take:
  assumes "raised_dialogs w h cs = []"
  shows "raised_dialogs w h (take n cs) = []"
proof -
  have "raised_dialogs w h (take n cs @ drop n cs) = []" using assms by simp
  then show ?thesis by (simp only: raised_dialogs_append) simp
qed

lemma add_client_attended:
  assumes q: "raised_dialogs w [] add_client_setup = []"
  shows "not_handled (log (snd (run_add_client w))) = [] \<and>
         accepted (log (snd (run_add_client w))) =
           raised_dialogs w [] (calls (log (snd (run_add_client w))))"
    (is "?Q (snd (run_add_client w))")
  unfolding run_add_client_guarded
proof (rule guarded_preserves [where I = "attended w" and Q = ?Q])
  have sil: "accepted (log (snd (seq w add_client_setup initial))) = [] \<and>
             not_handled (log (snd (seq w add_client_setup initial))) = []"
    using seq_silent [of w initial add_client_setup] q by (simp add: initial_def)
  {
    assume r: "fst (seq w add_client_setup initial) = Returned"
    show "attended w (snd (seq w add_client_setup initial))"
      using add_client_listeners [OF r] sil seq_returned_calls [OF r] q
      by (simp add: attended_def)
  next
    assume r: "fst (seq w add_client_setup initial) = Raised"
    from seq_raised_calls [OF r] obtain k where
      "calls (log (snd (seq w add_client_setup initial))) = take (Suc k) add_client_setup"
      by blast
    with sil raised_dialogs_take [OF q, of "Suc k"]
    show "?Q (snd (seq w add_client_setup initial))" by simp
  next
    fix c s
    assume "c \<in> set (add_client_body @ [Close])" "attended w s"
    then show "attended w (snd (perform w c s))"
      by (intro perform_attended no_on_add_client_body)
  next
    fix s
    assume "attended w s"
    then show "?Q s" by (simp add: attended_def)
  }
qed

lemma add_client_registers:
  assumes "fst (seq w add_client_setup initial) = Returned"
  shows "listeners (snd (run_add_client w)) =
           [(''console'', Print_Console), (''dialog'', Accept_Dialog)]"
proof -
  let ?L = "[(''console'', Print_Console), (''dialog'', Accept_Dialog)]"
  have "fst (seq w add_client_setup initial) = Returned \<longrightarrow>
        listeners (snd (guarded w add_client_setup add_client_body)) = ?L"
  proof (rule guarded_preserves [where I = "\<lambda>s::state. listeners s = ?L"])
    fix c and s :: state
    assume "c \<in> set (add_client_body @ [Close])" "listeners s = ?L"
    then show "listeners (snd (perform w c s)) = ?L"
      using perform_listeners [OF no_on_add_client_body, of c w s] by simp
  qed (simp_all add: add_client_listeners)
  with assms show ?thesis by (simp add: run_add_client_guarded)
qed

lemma alerting_add_client:
  "run_add_client alerting =
     (Returned,
      \<lparr>listeners = [(''console'', Print_Console), (''dialog'', Accept_Dialog)],
       log = map (\<lambda>c. Did c Returned) (add_client_setup @ take 5 add_client_body) @
             [Accepted ''Cliente salvo'', Did (Wait_For_Timeout 2000) Returned, Did Close Returned]\<rparr>)"
  by (simp add: run_defs alerting_def salvar_def)

lemma alerting_verify:
  "run_verify_multi_part_devolution alerting =
     (Returned,
      \<lparr>listeners = [],
       log = map (\<lambda>c. Did c Returned) (verify_setup @ take 4 verify_body) @
             [Not_Handled ''Cliente salvo''] @
             map (\<lambda>c. Did c Returned) (drop 4 verify_body @ [Close])\<rparr>)"
  by (simp add: run_defs alerting_def salvar_def adicionar_peca_def salvar_devolucao_def)

lemma calm_add_client:
  "run_add_client calm =
     (Returned,
      \<lparr>listeners = [(''console'', Print_Console), (''dialog'', Accept_Dialog)],
       log = map (\<lambda>c. Did c Returned) (add_client_setup @ add_client_body @ [Close])\<rparr>)"
  by (simp add: run_defs calm_def)

lemma calm_verify:
  "run_verify_multi_part_devolution calm =
     (Returned,
      \<lparr>listeners = [],
       log = map (\<lambda>c. Did c Returned) (verify_setup @ verify_body @ [Close])\<rparr>)"
  by (simp add: run_defs calm_def)

lemma stable_no_on: "stable (\<lambda>cs. filter is_on cs = [])"
  by (rule stableI) simp_all

lemma returned_trace:
  assumes "fst (guarded w S B) = Returned"
  shows "trace (log (snd (guarded w S B))) = completed (S @ B @ [Close])"
proof (cases rule: guarded_cases [of S w B])
  case (setup_raised k)
  with assms show ?thesis by simp
next
  case (body_raised k out)
  with assms show ?thesis by simp
next
  case (body_returned out)
  with assms show ?thesis by (simp add: completed_simps)
qed

lemma interactions_trace:
  "accepted es = [] \<Longrightarrow> interactions es = map (\<lambda>(c, out). Did c out) (trace es)"
  by (induction es rule: interactions.induct) simp_all

lemma distinct_add_client: "distinct (add_client_setup @ add_client_body)"
  by (simp add: add_client_setup_def add_client_body_def)

lemma distinct_verify: "distinct (verify_setup @ verify_body)"
  by (simp add: verify_setup_def verify_body_def literals)

lemma set_stops: "(c, Returned) \<in> set (stops cs k) \<longleftrightarrow> c \<in> set (take k cs)"
  by (auto simp: stops_def set_completed)

lemma take_next:
  assumes "Suc n < length xs"
  shows "xs = take (Suc n) xs @ xs ! Suc n # drop (Suc (Suc n)) xs"
  using assms by (rule id_take_nth_drop)

lemma returned_then_next:
  assumes r: "(B ! n, Returned) \<in> set (trace (log (snd (guarded w S B))))"
    and n: "n < length B" and d: "distinct (S @ B)" and nc: "Close \<notin> set (S @ B)"
  shows "\<exists>rest. calls (log (snd (guarded w S B))) =
           S @ take (Suc n) B @ (B @ [Close]) ! Suc n # rest"
proof -
  have inB: "B ! n \<in> set B" using n by simp
  with d have notS: "B ! n \<notin> set S" by auto
  from inB nc have notC: "B ! n \<noteq> Close" by auto
  from d have dB: "distinct B" by simp
  show ?thesis
  proof (cases rule: guarded_cases [of S w B])
    case (setup_raised k)
    with r have "B ! n \<in> set (take k S)" by (simp add: set_stops)
    with notS show ?thesis by (auto dest: in_set_takeD)
  next
    case (body_raised k out)
    with r notS notC have "B ! n \<in> set (take k B)"
      by (auto simp: set_stops set_completed)
    with dB n have nk: "n < k" by (rule nth_in_take)
    let ?xs = "take (Suc k) B"
    have len: "Suc n < length ?xs" using nk body_raised(1) by simp
    have "?xs = take (Suc n) ?xs @ ?xs ! Suc n # drop (Suc (Suc n)) ?xs"
      using len by (rule take_next)
    moreover have "take (Suc n) ?xs = take (Suc n) B" using nk by (simp add: min_def)
    moreover have "?xs ! Suc n = (B @ [Close]) ! Suc n"
      using nk body_raised(1) by (simp add: nth_append)
    ultimately have e: "?xs = take (Suc n) B @ (B @ [Close]) ! Suc n # drop (Suc (Suc n)) ?xs"
      by simp
    have "calls (log (snd (guarded w S B))) = S @ ?xs @ [Close]"
      using body_raised by (simp add: calls_trace map_fst_completed map_fst_stops)
    also have "\<dots> = S @ take (Suc n) B @ (B @ [Close]) ! Suc n # (drop (Suc (Suc n)) ?xs @ [Close])"
      by (subst e) simp
    finally show ?thesis by blast
  next
    case (body_returned out)
    let ?xs = "B @ [Close]"
    have len: "Suc n < length ?xs" using n by simp
    have "?xs = take (Suc n) ?xs @ ?xs ! Suc n # drop (Suc (Suc n)) ?xs"
      using len by (rule take_next)
    moreover have "take (Suc n) ?xs = take (Suc n) B" using n by simp
    ultimately have e: "?xs = take (Suc n) B @ ?xs ! Suc n # drop (Suc (Suc n)) ?xs"
      by simp
    have "calls (log (snd (guarded w S B))) = S @ ?xs"
      using body_returned by (simp add: calls_trace map_fst_completed)
    also have "\<dots> = S @ take (Suc n) B @ ?xs ! Suc n # drop (Suc (Suc n)) ?xs"
      by (subst e) simp
    finally show ?thesis by blast
  qed
qed

lemma issued_after_returned:
  assumes r: "B ! n \<in> set (calls (log (snd (guarded w S B))))"
    and n: "n < length B" and d: "distinct (S @ B)" and nc: "Close \<notin> set (S @ B)"
  shows "\<exists>out rest. trace (log (snd (guarded w S B))) =
           completed (S @ take n B) @ (B ! n, out) # rest"
proof -
  have inB: "B ! n \<in> set B" using n by simp
  with d have notS: "B ! n \<notin> set S" by auto
  from inB nc have notC: "B ! n \<noteq> Close" by auto
  from d have dB: "distinct B" by simp
  show ?thesis
  proof (cases rule: guarded_cases [of S w B])
    case (setup_raised k)
    with r have "B ! n \<in> set (take (Suc k) S)" by (simp add: calls_trace map_fst_stops)
    with notS show ?thesis by (auto dest: in_set_takeD)
  next
    case (body_raised k out)
    with r notS notC have "B ! n \<in> set (take (Suc k) B)"
      by (auto simp: calls_trace map_fst_stops map_fst_completed)
    with dB n have nk: "n < Suc k" by (rule nth_in_take)
    show ?thesis
    proof (cases "n = k")
      case True
      with body_raised show ?thesis by (simp add: stops_def completed_simps)
    next
      case False
      with nk have lt: "n < k" by simp
      let ?xs = "take k B"
      have "n < length ?xs" using lt body_raised(1) by simp
      then have "?xs = take n ?xs @ ?xs ! n # drop (Suc n) ?xs" by (rule id_take_nth_drop)
      moreover have "take n ?xs = take n B" using lt by (simp add: min_def)
      moreover have "?xs ! n = B ! n" using lt by simp
      ultimately have e: "?xs = take n B @ B ! n # drop (Suc n) ?xs" by simp
      have "trace (log (snd (guarded w S B))) =
              completed S @ completed ?xs @ [(B ! k, Raised), (Close, out)]"
        using body_raised by (simp add: stops_def)
      also have "\<dots> = completed (S @ take n B) @ (B ! n, Returned) #
                   (completed (drop (Suc n) ?xs) @ [(B ! k, Raised), (Close, out)])"
        by (subst e) (simp add: completed_simps)
      finally show ?thesis by blast
    qed
  next
    case (body_returned out)
    have e: "B = take n B @ B ! n # drop (Suc n) B" using n by (rule id_take_nth_drop)
    have "trace (log (snd (guarded w S B))) = completed S @ completed B @ [(Close, out)]"
      using body_returned by simp
    also have "\<dots> = completed (S @ take n B) @ (B ! n, Returned) #
                 (completed (drop (Suc n) B) @ [(Close, out)])"
      by (subst e) (simp add: completed_simps)
    finally show ?thesis by blast
  qed
qed

lemma timed_waits_append:
  "timed_waits p (xs @ ys) =
     timed_waits p xs @ timed_waits (if xs = [] then p else Some (last xs)) ys"
  by (induction p xs rule: timed_waits.induct) simp_all

lemma stable_timed_waits: "stable (\<lambda>cs. timed_waits None cs = [] \<or> timed_waits None cs = [x])"
proof (rule stableI)
  fix xs ys
  assume "timed_waits None (xs @ ys) = [] \<or> timed_waits None (xs @ ys) = [x]"
  then show "timed_waits None xs = [] \<or> timed_waits None xs = [x]"
    by (cases "timed_waits None xs") (auto simp: timed_waits_append)
next
  fix xs
  assume "timed_waits None xs = [] \<or> timed_waits None xs = [x]"
  then show "timed_waits None (xs @ [Close]) = [] \<or> timed_waits None (xs @ [Close]) = [x]"
    by (simp add: timed_waits_append)
qed

lemma wait_after_salvar:
  assumes next_call: "\<exists>rest. cs = pre @ Wait_For_Timeout 2000 # rest"
    and prev: "pre \<noteq> []" "last pre = Click salvar"
    and before: "timed_waits None pre = []"
    and once: "timed_waits None cs = [] \<or> timed_waits None cs = [(Some (Click salvar), 2000)]"
  shows "timed_waits None cs = [(Some (Click salvar), 2000)]"
proof -
  from next_call obtain rest where c: "cs = pre @ Wait_For_Timeout 2000 # rest"
    by auto
  have "timed_waits None cs =
          timed_waits None pre @ timed_waits (Some (last pre)) (Wait_For_Timeout 2000 # rest)"
    unfolding c using prev(1) by (simp only: timed_waits_append if_False)
  then have "timed_waits None cs =
          (Some (Click salvar), 2000) # timed_waits (Some (Wait_For_Timeout 2000)) rest"
    using prev(2) before by simp
  with once show ?thesis by auto
qed

lemma stable_precedes: "\<not> P Close \<Longrightarrow> stable (precedes P Q)"
  unfolding precedes_def by (rule stable_no_later)

lemma stable_precedes_on_page: "\<not> P Close \<Longrightarrow> stable (precedes_on_page P Q)"
  unfolding precedes_on_page_def by (rule stable_no_later)

lemma fills_on_append:
  "\<exists>q. fills_on p (xs @ ys) = fills_on p xs @ fills_on q ys"
  by (induction p xs rule: fills_on.induct) auto

lemma fills_on_close: "fills_on p (xs @ [Close]) = fills_on p xs"
  by (induction p xs rule: fills_on.induct) auto

lemma stable_fills_follow_navigation: "stable fills_follow_navigation"
proof (rule stableI)
  fix xs ys
  assume a: "fills_follow_navigation (xs @ ys)"
  obtain q where "fills_on None (xs @ ys) = fills_on None xs @ fills_on q ys"
    using fills_on_append by blast
  with a show "fills_follow_navigation xs" by (simp add: fills_follow_navigation_def)
next
  fix xs
  assume "fills_follow_navigation xs"
  then show "fills_follow_navigation (xs @ [Close])"
    by (simp add: fills_follow_navigation_def fills_on_close)
qed

lemma fills_add_client: "fills_follow_navigation (add_client_setup @ add_client_body)"
  by (simp add: fills_follow_navigation_def add_client_setup_def add_client_body_def
      on_own_page_def page_of_field_def client_form_def)

lemma fills_verify: "fills_follow_navigation (verify_setup @ verify_body)"
  by (simp add: fills_follow_navigation_def verify_setup_def verify_body_def
      on_own_page_def page_of_field_def client_form_def devolution_form_def part_fills_def literals)

lemma stable_ordered: "stable ordered"
proof -
  have "stable (\<lambda>cs. only_after is_launch is_goto cs \<and>
     only_after is_goto is_fill cs \<and>
     fills_follow_navigation cs \<and>
     precedes_on_page is_fill is_submit cs \<and>
     only_after is_fill is_submit cs \<and>
     precedes_on_page (\<lambda>c. c = Expect_Visible navbar) (\<lambda>c. is_fill c \<or> is_submit c) cs \<and>
     only_after (\<lambda>c. c = Click salvar_devolucao) is_outcome_check cs \<and>
     precedes is_submit is_outcome_check cs)"
    by (intro stable_conj stable_only_after stable_precedes stable_precedes_on_page
        stable_fills_follow_navigation)
      (simp_all add: is_submit_def is_outcome_check_def)
  then show ?thesis by (simp add: ordered_def [abs_def])
qed

lemmas buttons = salvar_def adicionar_peca_def salvar_devolucao_def navbar_def success_alert_def
  c_cedilla_def a_tilde_def cao_def

lemma ordered_add_client: "ordered (add_client_setup @ add_client_body)"
  unfolding ordered_def
  by (intro conjI fills_add_client)
    (simp_all add: add_client_setup_def add_client_body_def precedes_def
      precedes_on_page_def is_submit_def is_outcome_check_def buttons)

lemma ordered_verify: "ordered (verify_setup @ verify_body)"
  unfolding ordered_def
  by (intro conjI fills_verify)
    (simp_all add: verify_setup_def verify_body_def precedes_def
      precedes_on_page_def is_submit_def is_outcome_check_def buttons)

lemma close_only_last:
  assumes nc: "Close \<notin> set (S @ B)"
  shows "Close \<notin> set (butlast (calls (log (snd (guarded w S B)))))"
proof (cases rule: guarded_calls_cases [of S w B])
  case (setup_raised k)
  with nc show ?thesis by (auto dest: in_set_butlastD in_set_takeD)
next
  case (entered k)
  have "Close \<notin> set (S @ take k B)" using nc by (auto dest: in_set_takeD)
  moreover have "butlast (calls (log (snd (guarded w S B)))) = S @ take k B"
    using entered(3) by (simp add: butlast_append)
  ultimately show ?thesis by simp
qed




lemma stable_at_most_one:
  "\<not> P Close \<Longrightarrow> stable (\<lambda>cs. filter P cs = [] \<or> filter P cs = [x])"
  by (rule stableI) (auto simp: append_eq_Cons_conv)

lemma stable_none: "\<not> P Close \<Longrightarrow> stable (\<lambda>cs. filter P cs = [])"
  by (rule stableI) auto

lemma interactions_but_acceptances:
  "filter (\<lambda>e. \<not> is_acceptance e) (interactions es) = map (\<lambda>(c, out). Did c out) (trace es)"
  by (induction es rule: interactions.induct) simp_all












section \<open>The claims\<close>

subsection \<open>C1: the success message is asserted\<close>

text \<open>
  C1: in every execution of \<^verbatim>\<open>verify_multi_part_devolution.py\<close> in which the click on
  the button \<open>salvar_devolucao\<close> returns, the calls just before it filled the devolution
  form with the literal values of \<open>devolution_form\<close> (PART-001 with quantity 1 in
  row 0, PART-002 with quantity 2 in row 1, client Test Client, request REQ-123, sale date
  2023-01-01, devolution date 2023-01-02) and all returned, and the call right after it
  asserts that the element of class \<^verbatim>\<open>alert-success\<close> is visible; when that assertion
  passes, the next call asserts that the same element contains the text
  \<open>success_text\<close>; and \<^verbatim>\<open>run\<close> returns normally only when both assertions have
  passed.
\<close>

theorem success_message_asserted:
  "((Click salvar_devolucao, Returned) \<in> set (trace (log (snd (run_verify_multi_part_devolution w)))) \<longrightarrow>
      (\<exists>pre out rest.
          trace (log (snd (run_verify_multi_part_devolution w))) =
            completed (pre @ devolution_form @ [Click salvar_devolucao]) @
            (Expect_Visible success_alert, out) # rest)) \<and>
   ((Expect_Visible success_alert, Returned)
       \<in> set (trace (log (snd (run_verify_multi_part_devolution w)))) \<longrightarrow>
      (\<exists>pre out rest.
          trace (log (snd (run_verify_multi_part_devolution w))) =
            completed (pre @ devolution_form @ [Click salvar_devolucao, Expect_Visible success_alert]) @
            (Expect_Contain_Text success_alert success_text, out) # rest)) \<and>
   (fst (run_verify_multi_part_devolution w) = Returned \<longrightarrow>
      (Expect_Visible success_alert, Returned)
        \<in> set (trace (log (snd (run_verify_multi_part_devolution w)))) \<and>
      (Expect_Contain_Text success_alert success_text, Returned)
        \<in> set (trace (log (snd (run_verify_multi_part_devolution w)))))"
proof -
  let ?g = "guarded w verify_setup verify_body"
  let ?pre = "verify_setup @ take 8 verify_body"
  have step: "\<exists>out rest. trace (log (snd ?g)) =
                completed (verify_setup @ take (Suc n) verify_body) @
                (verify_body ! Suc n, out) # rest"
    if r: "(verify_body ! n, Returned) \<in> set (trace (log (snd ?g)))" and n: "Suc n < length verify_body"
    for n
  proof -
    from n have n': "n < length verify_body" by simp
    from returned_then_next [OF r n' distinct_verify no_close_verify] n
    have "verify_body ! Suc n \<in> set (calls (log (snd ?g)))"
      by (auto simp: nth_append)
    from issued_after_returned [OF this n distinct_verify no_close_verify]
    show ?thesis .
  qed
  have a: "\<exists>pre out rest. trace (log (snd ?g)) =
             completed (pre @ devolution_form @ [Click salvar_devolucao]) @
             (Expect_Visible success_alert, out) # rest"
    if r: "(Click salvar_devolucao, Returned) \<in> set (trace (log (snd ?g)))"
  proof -
    have "(verify_body ! 19, Returned) \<in> set (trace (log (snd ?g)))"
      using r by (simp add: verify_body_def)
    from step [OF this] obtain out rest where
      "trace (log (snd ?g)) =
         completed (verify_setup @ take (Suc 19) verify_body) @ (verify_body ! Suc 19, out) # rest"
      by (auto simp: verify_body_def)
    moreover have "verify_setup @ take (Suc 19) verify_body =
                     ?pre @ devolution_form @ [Click salvar_devolucao]"
      by (simp add: verify_body_def devolution_form_def part_fills_def)
    moreover have "verify_body ! Suc 19 = Expect_Visible success_alert"
      by (simp add: verify_body_def)
    ultimately show ?thesis by metis
  qed
  have b: "\<exists>pre out rest. trace (log (snd ?g)) =
             completed (pre @ devolution_form @ [Click salvar_devolucao, Expect_Visible success_alert]) @
             (Expect_Contain_Text success_alert success_text, out) # rest"
    if r: "(Expect_Visible success_alert, Returned) \<in> set (trace (log (snd ?g)))"
  proof -
    have "(verify_body ! 20, Returned) \<in> set (trace (log (snd ?g)))"
      using r by (simp add: verify_body_def)
    from step [OF this] obtain out rest where
      "trace (log (snd ?g)) =
         completed (verify_setup @ take (Suc 20) verify_body) @ (verify_body ! Suc 20, out) # rest"
      by (auto simp: verify_body_def)
    moreover have "verify_setup @ take (Suc 20) verify_body =
                     ?pre @ devolution_form @ [Click salvar_devolucao, Expect_Visible success_alert]"
      by (simp add: verify_body_def devolution_form_def part_fills_def)
    moreover have "verify_body ! Suc 20 = Expect_Contain_Text success_alert success_text"
      by (simp add: verify_body_def)
    ultimately show ?thesis by metis
  qed
  have c: "(Expect_Visible success_alert, Returned) \<in> set (trace (log (snd ?g))) \<and>
           (Expect_Contain_Text success_alert success_text, Returned) \<in> set (trace (log (snd ?g)))"
    if "fst ?g = Returned"
    using returned_trace [OF that]
    by (simp add: set_completed verify_body_def)
  from a b c show ?thesis by (simp add: run_verify_guarded)
qed

text \<open>
  An execution in which the success message shows without the expected text (the second
  assertion is made and raises), and the one in which every call returns.
\<close>

theorem success_message_asserted_witness:
  "(Click salvar_devolucao, Returned)
     \<in> set (trace (log (snd (run_verify_multi_part_devolution no_success)))) \<and>
   (Expect_Visible success_alert, Returned)
     \<in> set (trace (log (snd (run_verify_multi_part_devolution no_success)))) \<and>
   (\<exists>pre out rest.
       trace (log (snd (run_verify_multi_part_devolution no_success))) =
         completed (pre @ devolution_form @ [Click salvar_devolucao, Expect_Visible success_alert]) @
         (Expect_Contain_Text success_alert success_text, out) # rest) \<and>
   fst (run_verify_multi_part_devolution no_success) = Raised \<and>
   fst (run_verify_multi_part_devolution calm) = Returned \<and>
   (Expect_Contain_Text success_alert success_text, Returned)
     \<in> set (trace (log (snd (run_verify_multi_part_devolution calm))))"
proof -
  have t: "trace (log (snd (run_verify_multi_part_devolution no_success))) =
             completed (verify_setup @ take 21 verify_body) @
             [(Expect_Contain_Text success_alert success_text, Raised), (Close, Returned)]"
    and r: "fst (run_verify_multi_part_devolution no_success) = Raised"
    by (simp_all add: run_defs no_success_def success_alert_def completed_def)
  have m: "(Click salvar_devolucao, Returned)
             \<in> set (trace (log (snd (run_verify_multi_part_devolution no_success))))"
    "(Expect_Visible success_alert, Returned)
             \<in> set (trace (log (snd (run_verify_multi_part_devolution no_success))))"
    unfolding t by (simp_all add: verify_body_def set_completed)
  have c: "fst (run_verify_multi_part_devolution calm) = Returned"
    by (simp add: calm_verify)
  from success_message_asserted [of no_success] success_message_asserted [of calm] m r c
  show ?thesis by simp
qed

subsection \<open>C2: closing the browser\<close>

text \<open>
  C2 as stated does not hold. The two statements before \<^verbatim>\<open>try\<close> (launching the browser, creating the page) and,
  in \<^verbatim>\<open>add_client.py\<close>, the two registrations are outside the guarded block. When
  \<^verbatim>\<open>browser.new_page()\<close> raises, \<^verbatim>\<open>run\<close> ends with the exception after two calls
  and \<^verbatim>\<open>browser.close()\<close> is never made.
\<close>

theorem close_skipped_when_new_page_raises:
  "fst (run_add_client no_page) = Raised \<and>
   calls (log (snd (run_add_client no_page))) = [Launch True, New_Page] \<and>
   Close \<notin> set (calls (log (snd (run_add_client no_page))))"
  by (simp add: run_defs no_page_def)

text \<open>
  C2, amended: in every execution of either script in which the statements before the
  \<^verbatim>\<open>try\<close> block return, \<^verbatim>\<open>browser.close()\<close> is called exactly once and it is the last
  call of \<^verbatim>\<open>run\<close>, whether the body completes or raises at any step.
\<close>

theorem close_runs_last_once_page_exists:
  "(fst (seq w add_client_setup initial) = Returned \<longrightarrow>
      closes_last (calls (log (snd (run_add_client w))))) \<and>
   (fst (seq w verify_setup initial) = Returned \<longrightarrow>
      closes_last (calls (log (snd (run_verify_multi_part_devolution w)))))"
  using closes_last_guarded [OF _ no_close_add_client, of w]
    closes_last_guarded [OF _ no_close_verify, of w]
  by (simp add: run_add_client_guarded run_verify_guarded)

text \<open>
  An execution of each script in which the navigation bar never becomes visible: the
  body raises, and the browser is closed as the last call.
\<close>

theorem close_runs_last_once_page_exists_witness:
  "fst (seq no_navbar add_client_setup initial) = Returned \<and>
   fst (run_add_client no_navbar) = Raised \<and>
   closes_last (calls (log (snd (run_add_client no_navbar)))) \<and>
   fst (seq no_navbar verify_setup initial) = Returned \<and>
   fst (run_verify_multi_part_devolution no_navbar) = Raised \<and>
   closes_last (calls (log (snd (run_verify_multi_part_devolution no_navbar))))"
proof -
  have a: "fst (seq no_navbar add_client_setup initial) = Returned"
    by (simp add: run_defs no_navbar_def)
  have b: "fst (seq no_navbar verify_setup initial) = Returned"
    by (simp add: run_defs no_navbar_def)
  have c: "fst (run_add_client no_navbar) = Raised"
    by (simp add: run_defs no_navbar_def navbar_def)
  have d: "fst (run_verify_multi_part_devolution no_navbar) = Raised"
    by (simp add: run_defs no_navbar_def navbar_def)
  from a b c d close_runs_last_once_page_exists [of no_navbar] show ?thesis by simp
qed

subsection \<open>C3: dialogs\<close>

text \<open>
  C3 as stated does not hold for the second script.
  \<^verbatim>\<open>verify_multi_part_devolution.py\<close> submits the client form with the same
  \<^verbatim>\<open>Salvar\<close> click as \<^verbatim>\<open>add_client.py\<close> but registers no dialog handler (its
  comment reads \<^verbatim>\<open>Don't wait for the alert, just give it a moment to process\<close>). An
  alert raised by that click is therefore not accepted by any handler of the script.
\<close>

theorem alert_after_salvar_not_accepted_in_devolution_script:
  "raised_dialogs alerting [] (calls (log (snd (run_verify_multi_part_devolution alerting))))
     = [''Cliente salvo''] \<and>
   accepted (log (snd (run_verify_multi_part_devolution alerting))) = [] \<and>
   not_handled (log (snd (run_verify_multi_part_devolution alerting))) = [''Cliente salvo'']"
  by (simp add: alerting_verify verify_setup_def verify_body_def)
    (simp add: alerting_def salvar_def adicionar_peca_def salvar_devolucao_def)

text \<open>
  C3, amended: in every execution of \<^verbatim>\<open>add_client.py\<close> in which no dialog is raised
  before the handlers are registered (during the four calls that precede the first
  navigation), every dialog raised while the script runs is accepted by the registered
  handler; in particular an alert raised after the \<^verbatim>\<open>Salvar\<close> click is accepted.
  The other script registers no handler.
\<close>

theorem add_client_accepts_every_dialog:
  assumes "raised_dialogs w [] add_client_setup = []"
  shows "not_handled (log (snd (run_add_client w))) = [] \<and>
         accepted (log (snd (run_add_client w))) =
           raised_dialogs w [] (calls (log (snd (run_add_client w))))"
  using assms by (rule add_client_attended)

text \<open>An execution in which the application answers the \<^verbatim>\<open>Salvar\<close> click with an alert.\<close>

theorem add_client_accepts_every_dialog_witness:
  "raised_dialogs alerting [] add_client_setup = [] \<and>
   not_handled (log (snd (run_add_client alerting))) = [] \<and>
   accepted (log (snd (run_add_client alerting))) = [''Cliente salvo'']"
proof -
  have q: "raised_dialogs alerting [] add_client_setup = []"
    by (simp add: add_client_setup_def alerting_def)
  have a: "accepted (log (snd (run_add_client alerting))) = [''Cliente salvo'']"
    by (simp add: alerting_add_client add_client_setup_def add_client_body_def)
  from add_client_accepts_every_dialog [OF q] q a show ?thesis by simp
qed

subsection \<open>C4: how elements are located\<close>

text \<open>
  C4 as stated does not hold. The six part fields of the devolution form are reached through a locator for the part
  row, a CSS selector on class and attribute (\<^verbatim>\<open>.part-row[data-part-index="0"]\<close>),
  inside which the field is then found by its label. That is none of the four kinds of
  locator of the claim.
\<close>

theorem part_field_outside_claimed_locators:
  "Fill (Within part1 (Label codigo_da_peca)) ''PART-001''
     \<in> set (calls (log (snd (run_verify_multi_part_devolution calm)))) \<and>
   \<not> located_by claimed_locator (Fill (Within part1 (Label codigo_da_peca)) ''PART-001'')"
  by (simp add: calm_verify_calls verify_body_def located_by_def)

text \<open>
  C4, amended: every element the two scripts interact with is located by a form-field
  label, by the id of the navigation element (\<^verbatim>\<open>#navbarNav\<close>), by a button's visible
  label, by the CSS class of the success message (\<^verbatim>\<open>.alert-success\<close>), or, for the
  part fields, by a label inside one of the two part rows, which are located by the CSS
  selectors \<^verbatim>\<open>.part-row[data-part-index="0"]\<close> and \<^verbatim>\<open>.part-row[data-part-index="1"]\<close>.
  This holds in every execution.
\<close>

theorem elements_located:
  "list_all (located_by actual_locator) (calls (log (snd (run_add_client w)))) \<and>
   list_all (located_by actual_locator) (calls (log (snd (run_verify_multi_part_devolution w))))"
proof -
  have st: "stable (list_all (located_by actual_locator))"
    by (rule stable_list_all) (simp add: located_by_def)
  show ?thesis
    using stable_guarded [OF st located_add_client no_close_add_client, of w]
      stable_guarded [OF st located_verify no_close_verify, of w]
    by (simp add: run_add_client_guarded run_verify_guarded)
qed

text \<open>The execution in which every call returns.\<close>

theorem elements_located_witness:
  "list_all (located_by actual_locator)
     (add_client_setup @ add_client_body @ [Close]) \<and>
   list_all (located_by actual_locator)
     (verify_setup @ verify_body @ [Close]) \<and>
   located_by actual_locator (Fill (Within part1 (Label codigo_da_peca)) ''PART-001'')"
  using elements_located [of calm]
  by (simp add: calm_add_client_calls calm_verify_calls located_by_def)

subsection \<open>C5: one fixed sequence of calls\<close>

text \<open>
  C5 as stated does not hold for the first script.
  \<^verbatim>\<open>add_client.py\<close> registers \<^verbatim>\<open>lambda dialog: dialog.accept()\<close>. Whether that
  acceptance takes place depends on what the page does: of two executions in which every
  call returns, one with an alert after the \<^verbatim>\<open>Salvar\<close> click and one without, only
  the first accepts a dialog.
\<close>

theorem accepting_depends_on_the_page:
  "fst (run_add_client calm) = Returned \<and> fst (run_add_client alerting) = Returned \<and>
   interactions (log (snd (run_add_client calm))) \<noteq>
   interactions (log (snd (run_add_client alerting)))"
  by (simp add: calm_add_client alerting_add_client add_client_setup_def add_client_body_def)

text \<open>
  C5, amended: the statements of each \<^verbatim>\<open>run\<close> form one straight-line sequence. For
  any two executions of either script in which every call returns, the calls issued are
  the same, with the same arguments, whatever the page does. For
  \<^verbatim>\<open>verify_multi_part_devolution.py\<close> all interactions of two such executions are the
  same; for \<^verbatim>\<open>add_client.py\<close> they are the same except for the dialogs accepted by
  the handler it registers. In every execution, failing or not, no call is issued twice,
  so nothing is retried.
\<close>

theorem same_calls_in_every_successful_run:
  "(fst (run_add_client w1) = Returned \<and> fst (run_add_client w2) = Returned \<longrightarrow>
      calls (log (snd (run_add_client w1))) = calls (log (snd (run_add_client w2))) \<and>
      filter (\<lambda>e. \<not> is_acceptance e) (interactions (log (snd (run_add_client w1)))) =
      filter (\<lambda>e. \<not> is_acceptance e) (interactions (log (snd (run_add_client w2))))) \<and>
   (fst (run_verify_multi_part_devolution w1) = Returned \<and>
    fst (run_verify_multi_part_devolution w2) = Returned \<longrightarrow>
      calls (log (snd (run_verify_multi_part_devolution w1))) =
      calls (log (snd (run_verify_multi_part_devolution w2))) \<and>
      interactions (log (snd (run_verify_multi_part_devolution w1))) =
      interactions (log (snd (run_verify_multi_part_devolution w2)))) \<and>
   distinct (calls (log (snd (run_add_client w1)))) \<and>
   distinct (calls (log (snd (run_verify_multi_part_devolution w1))))"
proof -
  have a: "trace (log (snd (run_add_client w))) =
             completed (add_client_setup @ add_client_body @ [Close])"
    if "fst (run_add_client w) = Returned" for w
    using returned_trace [of w add_client_setup add_client_body] that
    by (simp add: run_add_client_guarded)
  have t: "trace (log (snd (run_verify_multi_part_devolution w))) =
             completed (verify_setup @ verify_body @ [Close])"
    if "fst (run_verify_multi_part_devolution w) = Returned" for w
    using returned_trace [of w verify_setup verify_body] that
    by (simp add: run_verify_guarded)
  have v: "interactions (log (snd (run_verify_multi_part_devolution w))) =
             map (\<lambda>(c, out). Did c out) (trace (log (snd (run_verify_multi_part_devolution w))))"
    for w
    using verify_unattended [of w] by (simp add: unattended_def interactions_trace)
  have d1: "distinct (calls (log (snd (run_add_client w1))))"
    using stable_guarded [OF stable_distinct distinct_add_client no_close_add_client, of w1]
    by (simp add: run_add_client_guarded)
  have d2: "distinct (calls (log (snd (run_verify_multi_part_devolution w1))))"
    using stable_guarded [OF stable_distinct distinct_verify no_close_verify, of w1]
    by (simp add: run_verify_guarded)
  from a [of w1] a [of w2] t [of w1] t [of w2] d1 d2 show ?thesis
    by (simp add: calls_trace interactions_but_acceptances v)
qed

text \<open>Two worlds that differ in the alert raised by the \<^verbatim>\<open>Salvar\<close> click.\<close>

theorem same_calls_in_every_successful_run_witness:
  "fst (run_add_client calm) = Returned \<and> fst (run_add_client alerting) = Returned \<and>
   calls (log (snd (run_add_client calm))) = calls (log (snd (run_add_client alerting))) \<and>
   filter (\<lambda>e. \<not> is_acceptance e) (interactions (log (snd (run_add_client calm)))) =
   filter (\<lambda>e. \<not> is_acceptance e) (interactions (log (snd (run_add_client alerting)))) \<and>
   fst (run_verify_multi_part_devolution calm) = Returned \<and>
   fst (run_verify_multi_part_devolution alerting) = Returned \<and>
   interactions (log (snd (run_verify_multi_part_devolution calm))) =
   interactions (log (snd (run_verify_multi_part_devolution alerting)))"
proof -
  have "fst (run_add_client calm) = Returned" "fst (run_add_client alerting) = Returned"
    "fst (run_verify_multi_part_devolution calm) = Returned"
    "fst (run_verify_multi_part_devolution alerting) = Returned"
    by (simp_all add: calm_add_client alerting_add_client calm_verify alerting_verify)
  with same_calls_in_every_successful_run [of calm alerting] show ?thesis by simp
qed

subsection \<open>C6: the fixed wait\<close>

text \<open>
  C6: in every execution of either script there is at most one wait that is not tied to
  an element, it lasts exactly 2000 milliseconds and the call made just before it is the
  click on \<^verbatim>\<open>Salvar\<close>; and whenever that click returns, the wait is made. (The other
  waits of the scripts are the \<^verbatim>\<open>expect\<close> assertions, which name an element.)
\<close>

theorem one_fixed_wait_after_salvar:
  "(timed_waits None (calls (log (snd (run_add_client w)))) = [] \<or>
    timed_waits None (calls (log (snd (run_add_client w)))) = [(Some (Click salvar), 2000)]) \<and>
   ((Click salvar, Returned) \<in> set (trace (log (snd (run_add_client w)))) \<longrightarrow>
    timed_waits None (calls (log (snd (run_add_client w)))) = [(Some (Click salvar), 2000)]) \<and>
   (timed_waits None (calls (log (snd (run_verify_multi_part_devolution w)))) = [] \<or>
    timed_waits None (calls (log (snd (run_verify_multi_part_devolution w)))) =
      [(Some (Click salvar), 2000)]) \<and>
   ((Click salvar, Returned) \<in> set (trace (log (snd (run_verify_multi_part_devolution w)))) \<longrightarrow>
    timed_waits None (calls (log (snd (run_verify_multi_part_devolution w)))) =
      [(Some (Click salvar), 2000)])"
proof -
  let ?x = "(Some (Click salvar), 2000 :: nat)"
  have fa: "timed_waits None (add_client_setup @ add_client_body) = [] \<or>
            timed_waits None (add_client_setup @ add_client_body) = [?x]"
    by (simp add: add_client_setup_def add_client_body_def)
  have fv: "timed_waits None (verify_setup @ verify_body) = [] \<or>
            timed_waits None (verify_setup @ verify_body) = [?x]"
    by (simp add: verify_setup_def verify_body_def)
  have a1: "timed_waits None (calls (log (snd (guarded w add_client_setup add_client_body)))) = [] \<or>
            timed_waits None (calls (log (snd (guarded w add_client_setup add_client_body)))) = [?x]"
    by (rule stable_guarded [OF stable_timed_waits fa no_close_add_client])
  have v1: "timed_waits None (calls (log (snd (guarded w verify_setup verify_body)))) = [] \<or>
            timed_waits None (calls (log (snd (guarded w verify_setup verify_body)))) = [?x]"
    by (rule stable_guarded [OF stable_timed_waits fv no_close_verify])
  have a2: "timed_waits None (calls (log (snd (guarded w add_client_setup add_client_body)))) = [?x]"
    if r: "(Click salvar, Returned) \<in> set (trace (log (snd (guarded w add_client_setup add_client_body))))"
  proof (rule wait_after_salvar [where pre = "add_client_setup @ take (Suc 4) add_client_body", OF _ _ _ _ a1])
    have "(add_client_body ! 4, Returned) \<in>
            set (trace (log (snd (guarded w add_client_setup add_client_body))))"
      using r by (simp add: add_client_body_def)
    from returned_then_next [OF this _ distinct_add_client no_close_add_client]
    show "\<exists>rest. calls (log (snd (guarded w add_client_setup add_client_body))) =
            (add_client_setup @ take (Suc 4) add_client_body) @ Wait_For_Timeout 2000 # rest"
      by (simp add: add_client_body_def)
  qed (simp_all add: add_client_setup_def add_client_body_def)
  have v2: "timed_waits None (calls (log (snd (guarded w verify_setup verify_body)))) = [?x]"
    if r: "(Click salvar, Returned) \<in> set (trace (log (snd (guarded w verify_setup verify_body))))"
  proof (rule wait_after_salvar [where pre = "verify_setup @ take (Suc 3) verify_body", OF _ _ _ _ v1])
    have "(verify_body ! 3, Returned) \<in> set (trace (log (snd (guarded w verify_setup verify_body))))"
      using r by (simp add: verify_body_def)
    from returned_then_next [OF this _ distinct_verify no_close_verify]
    show "\<exists>rest. calls (log (snd (guarded w verify_setup verify_body))) =
            (verify_setup @ take (Suc 3) verify_body) @ Wait_For_Timeout 2000 # rest"
      by (simp add: verify_body_def)
  qed (simp_all add: verify_setup_def verify_body_def)
  from a1 a2 v1 v2 show ?thesis
    by (simp add: run_add_client_guarded run_verify_guarded)
qed

text \<open>The execution of each script in which every call returns.\<close>

theorem one_fixed_wait_after_salvar_witness:
  "(Click salvar, Returned) \<in> set (trace (log (snd (run_add_client calm)))) \<and>
   timed_waits None (calls (log (snd (run_add_client calm)))) = [(Some (Click salvar), 2000)] \<and>
   (Click salvar, Returned) \<in> set (trace (log (snd (run_verify_multi_part_devolution calm)))) \<and>
   timed_waits None (calls (log (snd (run_verify_multi_part_devolution calm)))) =
     [(Some (Click salvar), 2000)]"
proof -
  have "(Click salvar, Returned) \<in> set (trace (log (snd (run_add_client calm))))"
    by (simp add: calm_add_client add_client_setup_def add_client_body_def)
  moreover have "(Click salvar, Returned) \<in> set (trace (log (snd (run_verify_multi_part_devolution calm))))"
    by (simp add: calm_verify verify_setup_def verify_body_def)
  ultimately show ?thesis using one_fixed_wait_after_salvar [of calm] by simp
qed

subsection \<open>C7: order of the operations\<close>

text \<open>
  C7 as stated does not hold.
  In \<^verbatim>\<open>add_client.py\<close> the assertion \<^verbatim>\<open>expect(navbar).to_be_visible()\<close> is made
  right after the navigation, before the form is filled and submitted: an assertion
  precedes the submit click, and no submit click precedes that assertion.
\<close>

theorem navbar_checked_before_submit:
  "\<not> only_after is_submit is_check (calls (log (snd (run_add_client calm)))) \<and>
   \<not> precedes_on_page is_submit is_check (calls (log (snd (run_add_client calm))))"
  by (simp add: calm_add_client_calls add_client_setup_def add_client_body_def
      precedes_on_page_def is_submit_def is_check_def buttons)

text \<open>
  C7, amended: in every execution of either script the browser is launched before any
  navigation; navigation to a page precedes filling that page's form fields (each field
  is filled after the navigation to its own page, with no other navigation in between),
  and on each page all fills precede the submit click; the assertion on the navigation
  bar comes before the fills and the submit click of its page; the assertions on the
  success message and the screenshot come only after the devolution form was submitted,
  and no form is submitted after them; nothing is called after \<^verbatim>\<open>browser.close()\<close>,
  and once the statements before the \<^verbatim>\<open>try\<close> block have returned, closing the
  browser is the last call.
\<close>

theorem order_of_operations:
  "ordered (calls (log (snd (run_add_client w)))) \<and>
   ordered (calls (log (snd (run_verify_multi_part_devolution w)))) \<and>
   Close \<notin> set (butlast (calls (log (snd (run_add_client w))))) \<and>
   Close \<notin> set (butlast (calls (log (snd (run_verify_multi_part_devolution w))))) \<and>
   (fst (seq w add_client_setup initial) = Returned \<longrightarrow>
      last (calls (log (snd (run_add_client w)))) = Close) \<and>
   (fst (seq w verify_setup initial) = Returned \<longrightarrow>
      last (calls (log (snd (run_verify_multi_part_devolution w)))) = Close)"
  using stable_guarded [OF stable_ordered ordered_add_client no_close_add_client, of w]
    stable_guarded [OF stable_ordered ordered_verify no_close_verify, of w]
    close_only_last [OF no_close_add_client, of w] close_only_last [OF no_close_verify, of w]
    closes_last_guarded [OF _ no_close_add_client, of w]
    closes_last_guarded [OF _ no_close_verify, of w]
  by (simp add: run_add_client_guarded run_verify_guarded closes_last_def)

text \<open>The execution of each script in which every call returns.\<close>

theorem order_of_operations_witness:
  "fst (seq calm add_client_setup initial) = Returned \<and>
   fst (seq calm verify_setup initial) = Returned \<and>
   calls (log (snd (run_add_client calm))) = add_client_setup @ add_client_body @ [Close] \<and>
   calls (log (snd (run_verify_multi_part_devolution calm))) =
     verify_setup @ verify_body @ [Close] \<and>
   ordered (add_client_setup @ add_client_body @ [Close]) \<and>
   ordered (verify_setup @ verify_body @ [Close]) \<and>
   last (verify_setup @ verify_body @ [Close]) = Close"
proof -
  have "fst (seq calm add_client_setup initial) = Returned"
    "fst (seq calm verify_setup initial) = Returned"
    by (simp_all add: run_defs calm_def)
  with order_of_operations [of calm] show ?thesis
    by (simp add: calm_add_client_calls calm_verify_calls)
qed

subsection \<open>C8: only \<^verbatim>\<open>add_client.py\<close> registers handlers\<close>

text \<open>
  C8: in every execution, \<^verbatim>\<open>verify_multi_part_devolution.py\<close> makes no \<^verbatim>\<open>page.on\<close>
  call and ends with no listener registered; it accepts no dialog, and every dialog
  raised during its run, whichever call it follows, is left without a handler of the
  script. \<^verbatim>\<open>add_client.py\<close>, once its four first statements have returned, has
  exactly the console listener and the dialog handler registered.
\<close>

theorem only_add_client_registers_handlers:
  "filter is_on (calls (log (snd (run_verify_multi_part_devolution w)))) = [] \<and>
   listeners (snd (run_verify_multi_part_devolution w)) = [] \<and>
   accepted (log (snd (run_verify_multi_part_devolution w))) = [] \<and>
   not_handled (log (snd (run_verify_multi_part_devolution w))) =
     raised_dialogs w [] (calls (log (snd (run_verify_multi_part_devolution w)))) \<and>
   (fst (seq w add_client_setup initial) = Returned \<longrightarrow>
      listeners (snd (run_add_client w)) =
        [(''console'', Print_Console), (''dialog'', Accept_Dialog)])"
proof -
  have "filter is_on (verify_setup @ verify_body) = []"
    by (simp add: verify_setup_def verify_body_def)
  from stable_guarded [OF stable_no_on this no_close_verify, of w]
  have "filter is_on (calls (log (snd (run_verify_multi_part_devolution w)))) = []"
    by (simp add: run_verify_guarded)
  with verify_unattended [of w] add_client_registers [of w] show ?thesis
    by (simp add: unattended_def)
qed

text \<open>
  The devolution script in a world where the \<^verbatim>\<open>Salvar\<close> click raises an alert: the
  click returns and the alert is not accepted.
\<close>

theorem only_add_client_registers_handlers_witness:
  "fst (seq alerting add_client_setup initial) = Returned \<and>
   listeners (snd (run_add_client alerting)) =
     [(''console'', Print_Console), (''dialog'', Accept_Dialog)] \<and>
   listeners (snd (run_verify_multi_part_devolution alerting)) = [] \<and>
   Did (Click salvar) Returned \<in> set (log (snd (run_verify_multi_part_devolution alerting))) \<and>
   not_handled (log (snd (run_verify_multi_part_devolution alerting))) = [''Cliente salvo''] \<and>
   accepted (log (snd (run_verify_multi_part_devolution alerting))) = []"
proof -
  have r: "fst (seq alerting add_client_setup initial) = Returned"
    by (simp add: run_defs alerting_def)
  have c: "Did (Click salvar) Returned \<in> set (log (snd (run_verify_multi_part_devolution alerting)))"
    by (simp add: alerting_verify verify_setup_def verify_body_def)
  have n: "not_handled (log (snd (run_verify_multi_part_devolution alerting))) = [''Cliente salvo'']"
    by (simp add: alerting_verify not_handled_append verify_setup_def verify_body_def)
  from only_add_client_registers_handlers [of alerting] r c n show ?thesis by simp
qed

subsection \<open>C9: the two part rows\<close>



subsection \<open>C10: the screenshot\<close>

text \<open>
  C10 as stated does not hold. A step before the screenshot that raises outside the \<^verbatim>\<open>try\<close> block ends
  \<^verbatim>\<open>run\<close> without the final block: when \<^verbatim>\<open>browser.new_page()\<close> raises, no
  screenshot is taken, and \<^verbatim>\<open>browser.close()\<close> does not run either.
\<close>

theorem no_close_when_page_creation_fails:
  "(New_Page, Raised) \<in> set (trace (log (snd (run_verify_multi_part_devolution no_page)))) \<and>
   Screenshot screenshot_path \<notin> set (calls (log (snd (run_verify_multi_part_devolution no_page)))) \<and>
   Close \<notin> set (calls (log (snd (run_verify_multi_part_devolution no_page))))"
  by (simp add: run_defs no_page_def)

text \<open>
  C10, amended: in every execution of \<^verbatim>\<open>verify_multi_part_devolution.py\<close> at most
  one screenshot is taken, at the path
  \<^verbatim>\<open>jules-scratch/verification/multi_part_verification.png\<close>, and when it is taken every
  call before it has returned, both assertions on the success message among them; so if
  any earlier step raises, no screenshot is taken. Once the statements before the
  \<^verbatim>\<open>try\<close> block have returned, \<^verbatim>\<open>browser.close()\<close> still runs, as the last call.
  \<^verbatim>\<open>add_client.py\<close> takes no screenshot: the screenshot is the only call of either
  script that writes a file.
\<close>

theorem screenshot_only_after_success:
  "(filter is_screenshot (calls (log (snd (run_verify_multi_part_devolution w)))) = [] \<or>
    filter is_screenshot (calls (log (snd (run_verify_multi_part_devolution w)))) =
      [Screenshot screenshot_path]) \<and>
   (Screenshot screenshot_path \<in> set (calls (log (snd (run_verify_multi_part_devolution w)))) \<longrightarrow>
      (\<exists>pre out rest.
          trace (log (snd (run_verify_multi_part_devolution w))) =
            completed pre @ (Screenshot screenshot_path, out) # rest \<and>
          Expect_Visible success_alert \<in> set pre \<and>
          Expect_Contain_Text success_alert success_text \<in> set pre)) \<and>
   (fst (seq w verify_setup initial) = Returned \<longrightarrow>
      closes_last (calls (log (snd (run_verify_multi_part_devolution w))))) \<and>
   filter is_screenshot (calls (log (snd (run_add_client w)))) = []"
proof -
  let ?g = "guarded w verify_setup verify_body"
  have a: "filter is_screenshot (calls (log (snd ?g))) = [] \<or>
           filter is_screenshot (calls (log (snd ?g))) = [Screenshot screenshot_path]"
    by (rule stable_guarded [OF stable_at_most_one _ no_close_verify])
      (simp_all add: verify_setup_def verify_body_def)
  have b: "\<exists>pre out rest.
          trace (log (snd ?g)) = completed pre @ (Screenshot screenshot_path, out) # rest \<and>
          Expect_Visible success_alert \<in> set pre \<and>
          Expect_Contain_Text success_alert success_text \<in> set pre"
    if s: "Screenshot screenshot_path \<in> set (calls (log (snd ?g)))"
  proof -
    have "verify_body ! 22 \<in> set (calls (log (snd ?g)))" using s by (simp add: verify_body_def)
    from issued_after_returned [OF this _ distinct_verify no_close_verify]
    obtain out rest where
      "trace (log (snd ?g)) =
         completed (verify_setup @ take 22 verify_body) @ (verify_body ! 22, out) # rest"
      by (auto simp: verify_body_def)
    then have "trace (log (snd ?g)) =
         completed (verify_setup @ take 22 verify_body) @ (Screenshot screenshot_path, out) # rest \<and>
         Expect_Visible success_alert \<in> set (verify_setup @ take 22 verify_body) \<and>
         Expect_Contain_Text success_alert success_text \<in> set (verify_setup @ take 22 verify_body)"
      by (simp add: verify_body_def)
    then show ?thesis by blast
  qed
  have c: "closes_last (calls (log (snd ?g)))" if "fst (seq w verify_setup initial) = Returned"
    using that by (rule closes_last_guarded [OF _ no_close_verify])
  have d: "filter is_screenshot (calls (log (snd (guarded w add_client_setup add_client_body)))) = []"
    by (rule stable_guarded [OF stable_none _ no_close_add_client])
      (simp_all add: add_client_setup_def add_client_body_def)
  from a b c d show ?thesis
    by (simp add: run_add_client_guarded run_verify_guarded)
qed

text \<open>
  Two executions: one in which the success message never shows the expected text (no
  screenshot, the browser is closed), and one in which every call returns.
\<close>

theorem screenshot_only_after_success_witness:
  "Screenshot screenshot_path \<notin> set (calls (log (snd (run_verify_multi_part_devolution no_success)))) \<and>
   fst (seq no_success verify_setup initial) = Returned \<and>
   fst (run_verify_multi_part_devolution no_success) = Raised \<and>
   closes_last (calls (log (snd (run_verify_multi_part_devolution no_success)))) \<and>
   Screenshot screenshot_path \<in> set (calls (log (snd (run_verify_multi_part_devolution calm)))) \<and>
   (\<exists>pre out rest.
       trace (log (snd (run_verify_multi_part_devolution calm))) =
         completed pre @ (Screenshot screenshot_path, out) # rest \<and>
       Expect_Visible success_alert \<in> set pre \<and>
       Expect_Contain_Text success_alert success_text \<in> set pre)"
proof -
  have n: "calls (log (snd (run_verify_multi_part_devolution no_success))) =
             verify_setup @ take 22 verify_body @ [Close]"
    "fst (run_verify_multi_part_devolution no_success) = Raised"
    "fst (seq no_success verify_setup initial) = Returned"
    by (simp_all add: run_defs no_success_def success_alert_def)
  have s: "Screenshot screenshot_path \<notin> set (verify_setup @ take 22 verify_body @ [Close])"
    by (simp add: verify_setup_def verify_body_def)
  have c: "Screenshot screenshot_path \<in> set (calls (log (snd (run_verify_multi_part_devolution calm))))"
    by (simp add: calm_verify_calls verify_body_def)
  from screenshot_only_after_success [of no_success] screenshot_only_after_success [of calm] n s c
  show ?thesis by simp
qed

end
